theory Spec2Isabelle
  imports Complex_Main
begin

section \<open>Data model (Geometry.h, RoomGraph.h)\<close>

text \<open>
  A \<^verbatim>\<open>double\<close> is modelled by the \<^typ>\<open>real\<close> it denotes; infinities and NaN are not
  modelled. The arithmetic of the area and of the centroid rounds the result of
  every operation to binary64, as the source does (section \<open>Double arithmetic\<close>);
  the quantisation of the node registry and the direction angles are computed
  without rounding. The C++ type \<^verbatim>\<open>int\<close> is modelled by \<^typ>\<open>int\<close>; the model agrees
  with the code as long as the quantised coordinates and the container sizes fit
  into a machine \<^verbatim>\<open>int\<close> (outside that range the casts of the source are undefined).
  Field names carry a prefix where the source's name is a keyword or a constant of HOL.
\<close>

record Vec2 =
  vx :: real
  vy :: real

record Segment =
  seg_a :: Vec2
  seg_b :: Vec2

record Room =
  polygon :: "Vec2 list"
  center :: Vec2
  area :: real

record Node =
  n_id :: int
  pos :: Vec2
  outgoingEdges :: "int list"

record HalfEdge =
  e_id :: int
  e_from :: int
  e_to :: int
  e_twin :: int
  e_next :: int
  e_used :: bool
  e_angle :: real

type_synonym GridKey = "int \<times> int"

record RoomGraph =
  m_nodes :: "Node list"
  m_edges :: "HalfEdge list"
  m_rooms :: "Room list"
  m_nodeIndex :: "GridKey \<rightharpoonup> int"
  m_snapSize :: real

text \<open>The constructor \<^verbatim>\<open>RoomGraph::RoomGraph()\<close>: empty containers, grid size \<open>1e-3\<close>.\<close>

definition RoomGraph_new :: RoomGraph where
  "RoomGraph_new =
     \<lparr>m_nodes = [], m_edges = [], m_rooms = [], m_nodeIndex = Map.empty,
      m_snapSize = 1 / 1000\<rparr>"

text \<open>\<^verbatim>\<open>RoomGraph::clear\<close> empties the four containers and keeps the grid size.\<close>

definition clear :: "RoomGraph \<Rightarrow> RoomGraph" where
  "clear g = g\<lparr>m_nodes := [], m_edges := [], m_rooms := [], m_nodeIndex := Map.empty\<rparr>"

section \<open>Node registry\<close>

text \<open>The key of a point: \<^verbatim>\<open>static_cast<int>(std::floor(p / m_snapSize + 0.5))\<close> per axis.\<close>

definition gridKey :: "real \<Rightarrow> Vec2 \<Rightarrow> GridKey" where
  "gridKey snap p = (\<lfloor>vx p / snap + 1 / 2\<rfloor>, \<lfloor>vy p / snap + 1 / 2\<rfloor>)"

text \<open>
  \<^verbatim>\<open>RoomGraph::findOrCreateNode\<close>: the id registered for the key if there is one,
  otherwise a new node with the unsnapped position and the next id.
\<close>

definition findOrCreateNode :: "Vec2 \<Rightarrow> RoomGraph \<Rightarrow> int \<times> RoomGraph" where
  "findOrCreateNode p g =
     (let key = gridKey (m_snapSize g) p in
      case m_nodeIndex g key of
        Some i \<Rightarrow> (i, g)
      | None \<Rightarrow>
          (let node = \<lparr>n_id = int (length (m_nodes g)), pos = p, outgoingEdges = []\<rparr> in
           (n_id node,
            g\<lparr>m_nodes := m_nodes g @ [node],
              m_nodeIndex := (m_nodeIndex g)(key \<mapsto> n_id node)\<rparr>)))"

text \<open>Resolving two points one after the other, as the half-edge builder does.\<close>

definition resolve2 :: "Vec2 \<Rightarrow> Vec2 \<Rightarrow> RoomGraph \<Rightarrow> int \<times> int" where
  "resolve2 p q g =
     (let (a, g1) = findOrCreateNode p g; (b, g2) = findOrCreateNode q g1 in (a, b))"

section \<open>Half-edge builder\<close>

text \<open>
  The library function \<^verbatim>\<open>std::atan2(y, x)\<close> on reals: the angle of the vector \<open>(x, y)\<close>
  in \<open>(-\<pi>, \<pi>]\<close>, and 0 for the zero vector. Signed zeros are not told apart; the
  arguments here are differences of coordinates, which are \<open>+0\<close> in the source when
  the coordinates are equal, and for \<open>+0\<close> the library function returns what this
  definition returns.
\<close>

definition atan2 :: "real \<Rightarrow> real \<Rightarrow> real" where
  "atan2 y x =
     (if 0 < x then arctan (y / x)
      else if x < 0 then (if 0 \<le> y then arctan (y / x) + pi else arctan (y / x) - pi)
      else if 0 < y then pi / 2
      else if y < 0 then - pi / 2
      else 0)"

text \<open>\<^verbatim>\<open>m_nodes[a].outgoingEdges.push_back(e)\<close>.\<close>

definition push_outgoing :: "int \<Rightarrow> int \<Rightarrow> Node list \<Rightarrow> Node list" where
  "push_outgoing a e nodes =
     nodes[nat a := (nodes ! nat a)\<lparr>outgoingEdges := outgoingEdges (nodes ! nat a) @ [e]\<rparr>]"

text \<open>
  One iteration of the loop of \<^verbatim>\<open>RoomGraph::buildNodesAndEdges\<close>. The source indexes
  \<^verbatim>\<open>m_nodes\<close> with the ids the registry returned, without a check; lemma
  \<open>findOrCreateNode_range\<close> below shows that on every graph reached from \<open>clear\<close>
  these ids are in range.
\<close>

definition addSegment :: "Segment \<Rightarrow> RoomGraph \<Rightarrow> RoomGraph" where
  "addSegment s g =
     (let (a, g1) = findOrCreateNode (seg_a s) g;
          (b, g2) = findOrCreateNode (seg_b s) g1
      in if a = b then g2
         else
           (let i = int (length (m_edges g2));
                pa = pos (m_nodes g2 ! nat a);
                pb = pos (m_nodes g2 ! nat b);
                e1 = \<lparr>e_id = i, e_from = a, e_to = b, e_twin = i + 1, e_next = - 1,
                      e_used = False,
                      e_angle = atan2 (vy pb - vy pa) (vx pb - vx pa)\<rparr>;
                e2 = \<lparr>e_id = i + 1, e_from = b, e_to = a, e_twin = i, e_next = - 1,
                      e_used = False,
                      e_angle = atan2 (vy pa - vy pb) (vx pa - vx pb)\<rparr>
            in g2\<lparr>m_nodes := push_outgoing b (e_id e2) (push_outgoing a (e_id e1) (m_nodes g2)),
                  m_edges := m_edges g2 @ [e1, e2]\<rparr>))"

fun buildNodesAndEdges :: "Segment list \<Rightarrow> RoomGraph \<Rightarrow> RoomGraph" where
  "buildNodesAndEdges [] g = g"
| "buildNodesAndEdges (s # segments) g = buildNodesAndEdges segments (addSegment s g)"

section \<open>Angular sorter\<close>

text \<open>
  \<^verbatim>\<open>RoomGraph::sortOutgoingByAngle\<close>. \<^verbatim>\<open>std::sort\<close> leaves the order of edges of equal
  angle open; the model sorts by insertion (\<^const>\<open>sort_key\<close>), which is one of the
  orders \<^verbatim>\<open>std::sort\<close> may produce. The comparator reads \<^verbatim>\<open>m_edges[e].angle\<close> for the
  ids \<open>e\<close> of the outgoing lists, which are ids of half-edges in every graph reached
  from \<open>clear\<close> (lemma \<open>buildNodesAndEdges_ok\<close>).
\<close>

definition sortOutgoingByAngle :: "RoomGraph \<Rightarrow> RoomGraph" where
  "sortOutgoingByAngle g =
     g\<lparr>m_nodes :=
         map (\<lambda>node.
                if length (outgoingEdges node) \<le> 1 then node
                else node\<lparr>outgoingEdges :=
                       sort_key (\<lambda>e. e_angle (m_edges g ! nat e)) (outgoingEdges node)\<rparr>)
             (m_nodes g)\<rparr>"

section \<open>Face-walk relation builder\<close>

text \<open>
  The search loop of \<^verbatim>\<open>buildNextRelations\<close>: the first position \<open>k\<close> (counted from
  \<open>k0\<close>) with \<^verbatim>\<open>out[k] == twinId\<close>, or \<open>-1\<close>.
\<close>

primrec findPos :: "int list \<Rightarrow> int \<Rightarrow> nat \<Rightarrow> int" where
  "findPos [] twinId k = - 1"
| "findPos (x # xs) twinId k = (if x = twinId then int k else findPos xs twinId (Suc k))"

text \<open>
  The body of the loop of \<^verbatim>\<open>buildNextRelations\<close> for one half-edge. At the remainder,
  \<open>p - 1 + n\<close> is not negative, so that \<^verbatim>\<open>%\<close> of C++ and \<open>mod\<close> agree.
\<close>

definition relink :: "Node list \<Rightarrow> HalfEdge \<Rightarrow> HalfEdge" where
  "relink nodes e =
     (let toNode = e_to e in
      if toNode < 0 \<or> toNode \<ge> int (length nodes) then e
      else
        (let out = outgoingEdges (nodes ! nat toNode) in
         if out = [] then e
         else
           (let p = findPos out (e_twin e) 0 in
            if p < 0 then e
            else
              (let n = int (length out); nextPos = (p - 1 + n) mod n
               in e\<lparr>e_next := out ! nat nextPos\<rparr>))))"

definition buildNextRelations :: "RoomGraph \<Rightarrow> RoomGraph" where
  "buildNextRelations g = g\<lparr>m_edges := map (relink (m_nodes g)) (m_edges g)\<rparr>"

section \<open>Double arithmetic\<close>

text \<open>
  Rounding to binary64 (IEEE 754, round to nearest, ties to even). \<open>rne\<close> rounds a
  real to the nearest integer, ties to the even one. \<open>rd x\<close> is the double nearest to
  \<open>x\<close>: with \<open>2^e \<le> |x| < 2^(e+1)\<close>, the doubles around \<open>x\<close> are the multiples of
  \<open>2^(e - 52)\<close>; below \<open>2^-1022\<close> (subnormal numbers) they are the multiples of
  \<open>2^-1074\<close>. Overflow to infinity is not modelled: it cannot happen in the area and
  the centroid while the coordinates are in the range in which the registry's casts
  to \<^verbatim>\<open>int\<close> are defined. Every operation on doubles returns the rounded exact result;
  extended precision and fused operations are not modelled.
\<close>

definition rne :: "real \<Rightarrow> int" where
  "rne x =
     (let f = \<lfloor>x\<rfloor>; d = x - of_int f in
      if d < 1 / 2 then f else if 1 / 2 < d then f + 1 else if even f then f else f + 1)"

definition rd :: "real \<Rightarrow> real" where
  "rd x =
     (if x = 0 then 0
      else
        (let e = max \<lfloor>log 2 \<bar>x\<bar>\<rfloor> (- 1022); u = 2 powr (of_int e - 52)
         in sgn x * of_int (rne (\<bar>x\<bar> / u)) * u))"

definition dadd :: "real \<Rightarrow> real \<Rightarrow> real" where
  "dadd x y = rd (x + y)"

definition dsub :: "real \<Rightarrow> real \<Rightarrow> real" where
  "dsub x y = rd (x - y)"

definition dmul :: "real \<Rightarrow> real \<Rightarrow> real" where
  "dmul x y = rd (x * y)"

definition ddiv :: "real \<Rightarrow> real \<Rightarrow> real" where
  "ddiv x y = rd (x / y)"

section \<open>Area and centroid\<close>

text \<open>The expression \<^verbatim>\<open>p.x * q.y - q.x * p.y\<close> of both loops.\<close>

definition cross :: "Vec2 \<Rightarrow> Vec2 \<Rightarrow> real" where
  "cross p q = dsub (dmul (vx p) (vy q)) (dmul (vx q) (vy p))"

definition computeSignedArea :: "Vec2 list \<Rightarrow> real" where
  "computeSignedArea poly =
     (if length poly < 3 then 0
      else
        (let n = length poly;
             area = foldl (\<lambda>area i. dadd area (cross (poly ! i) (poly ! ((i + 1) mod n))))
                      0 [0..<n]
         in dmul (1 / 2) area))"

definition computeCentroid :: "Vec2 list \<Rightarrow> real \<Rightarrow> Vec2" where
  "computeCentroid poly signedArea =
     (if length poly < 3 then \<lparr>vx = 0, vy = 0\<rparr>
      else
        (let n = length poly;
             factor = ddiv 1 (dmul 6 signedArea);
             (cx, cy) =
               foldl (\<lambda>(cx, cy) i.
                        (let p = poly ! i; q = poly ! ((i + 1) mod n) in
                         (dadd cx (dmul (dadd (vx p) (vx q)) (cross p q)),
                          dadd cy (dmul (dadd (vy p) (vy q)) (cross p q)))))
                     (0, 0) [0..<n]
         in \<lparr>vx = dmul cx factor, vy = dmul cy factor\<rparr>))"

section \<open>Cycle walker\<close>

text \<open>
  Reading \<^verbatim>\<open>m_edges[currentId]\<close> outside the array is undefined in the source; the
  model returns the error \<open>OutOfRange\<close> there.
\<close>

datatype error = OutOfRange

text \<open>The statement that ended the inner loop of a walk.\<close>

datatype walk_exit =
  HitUsed    \<comment> \<open>the current edge is already used\<close>
| BadFrom    \<comment> \<open>the origin of the current edge is no node\<close>
| DeadEnd    \<comment> \<open>\<^verbatim>\<open>e.next < 0\<close>\<close>
| Closed     \<comment> \<open>\<^verbatim>\<open>e.next == start.id\<close>\<close>

definition unused_count :: "HalfEdge list \<Rightarrow> nat" where
  "unused_count edges = length (filter (\<lambda>e. \<not> e_used e) edges)"

text \<open>
  The inner \<^verbatim>\<open>while (true)\<close> loop of \<^verbatim>\<open>RoomGraph::walkCycles\<close>, as a recursion on the
  loop state (the edge array, the polygon, the current id). Beside the state of the
  source it returns which statement left the loop, and the number \<open>k\<close> of iterations.
\<close>

function walk ::
  "Node list \<Rightarrow> int \<Rightarrow> int \<Rightarrow> HalfEdge list \<Rightarrow> Vec2 list \<Rightarrow> nat
     \<Rightarrow> error + HalfEdge list \<times> Vec2 list \<times> walk_exit \<times> nat"
where
  "walk nodes startId currentId edges poly k =
     (if currentId < 0 \<or> int (length edges) \<le> currentId then Inl OutOfRange
      else if e_used (edges ! nat currentId) then Inr (edges, poly, HitUsed, Suc k)
      else
        (let e = edges ! nat currentId;
             edges' = edges[nat currentId := e\<lparr>e_used := True\<rparr>];
             fromNode = e_from e
         in if fromNode < 0 \<or> fromNode \<ge> int (length nodes)
            then Inr (edges', poly, BadFrom, Suc k)
            else
              (let poly' = poly @ [pos (nodes ! nat fromNode)] in
               if e_next e < 0 then Inr (edges', poly', DeadEnd, Suc k)
               else if e_next e = startId then Inr (edges', poly', Closed, Suc k)
               else walk nodes startId (e_next e) edges' poly' (Suc k))))"
  by pat_completeness auto

lemma unused_count_mark:
  "i < length edges \<Longrightarrow> \<not> e_used (edges ! i) \<Longrightarrow>
   Suc (unused_count (edges[i := (edges ! i)\<lparr>e_used := True\<rparr>])) = unused_count edges"
proof (induction edges arbitrary: i)
  case Nil
  then show ?case by simp
next
  case (Cons e edges)
  show ?case
  proof (cases i)
    case 0
    with Cons.prems show ?thesis by (simp add: unused_count_def)
  next
    case (Suc j)
    with Cons.prems Cons.IH [of j] show ?thesis by (simp add: unused_count_def)
  qed
qed

termination walk
  apply (relation "measure (\<lambda>(nodes, startId, currentId, edges, poly, k). unused_count edges)")
   apply simp
  apply (simp add: Let_def)
  apply (subgoal_tac "nat currentId < length edges")
  using unused_count_mark apply fastforce
  apply linarith
  done

declare walk.simps [simp del]

text \<open>What a walk leaves in the log: where it started, how it ended, how many
  iterations it took, and whether a Room was pushed.\<close>

record walk_log =
  w_start :: nat
  w_exit :: walk_exit
  w_iters :: nat
  w_emitted :: bool

text \<open>
  One iteration of the outer loop of \<^verbatim>\<open>RoomGraph::walkCycles\<close>, for the index \<open>i\<close>:
  the new graph, and the log entry of the walk if one was started. The literal
  \<^verbatim>\<open>1e-6\<close> of the source is the double \<open>rd (1 / 1000000)\<close>; \<^verbatim>\<open>std::fabs\<close> and the
  comparisons are exact.
\<close>

definition walkCycle :: "nat \<Rightarrow> RoomGraph \<Rightarrow> error + RoomGraph \<times> walk_log list" where
  "walkCycle i g =
     (let start = m_edges g ! i in
      if e_used start then Inr (g, [])
      else
        (case walk (m_nodes g) (e_id start) (e_id start) (m_edges g) [] 0 of
           Inl err \<Rightarrow> Inl err
         | Inr (edges', poly, ex, k) \<Rightarrow>
             (let g' = g\<lparr>m_edges := edges'\<rparr>;
                  entry = \<lparr>w_start = i, w_exit = ex, w_iters = k, w_emitted = False\<rparr>
              in if length poly < 3 then Inr (g', [entry])
                 else
                   (let signedArea = computeSignedArea poly in
                    if \<bar>signedArea\<bar> < rd (1 / 1000000) then Inr (g', [entry])
                    else if signedArea \<le> 0 then Inr (g', [entry])
                    else
                      (let room = \<lparr>polygon = poly,
                                    center = computeCentroid poly signedArea,
                                    area = \<bar>signedArea\<bar>\<rparr>
                       in Inr (g'\<lparr>m_rooms := m_rooms g' @ [room]\<rparr>,
                               [entry\<lparr>w_emitted := True\<rparr>]))))))"

fun walkCycles_loop ::
  "nat list \<Rightarrow> RoomGraph \<Rightarrow> walk_log list \<Rightarrow> error + RoomGraph \<times> walk_log list"
where
  "walkCycles_loop [] g trace = Inr (g, trace)"
| "walkCycles_loop (i # is) g trace =
     (case walkCycle i g of
        Inl err \<Rightarrow> Inl err
      | Inr (g', entries) \<Rightarrow> walkCycles_loop is g' (trace @ entries))"

definition walkCycles :: "RoomGraph \<Rightarrow> error + RoomGraph \<times> walk_log list" where
  "walkCycles g = walkCycles_loop [0..<length (m_edges g)] g []"

section \<open>The build operation\<close>

text \<open>Steps 1 to 3 of \<^verbatim>\<open>RoomGraph::build\<close>, on the cleared graph.\<close>

definition buildGraph :: "Segment list \<Rightarrow> RoomGraph \<Rightarrow> RoomGraph" where
  "buildGraph segments g =
     buildNextRelations (sortOutgoingByAngle (buildNodesAndEdges segments (clear g)))"

definition build :: "Segment list \<Rightarrow> RoomGraph \<Rightarrow> error + RoomGraph" where
  "build segments g =
     (if segments = [] then Inr (clear g)
      else
        (case walkCycles (buildGraph segments g) of
           Inl err \<Rightarrow> Inl err
         | Inr (g', trace) \<Rightarrow> Inr g'))"

definition getRooms :: "RoomGraph \<Rightarrow> Room list" where
  "getRooms g = m_rooms g"

section \<open>Vocabulary of the specification\<close>

text \<open>
  The definitions of this section are not part of the program. They name what the
  claims speak about: which segments the builder accepts, what a well-formed graph
  is, which half-edges a walk has used, and the concrete inputs on which the
  theorems are run.
\<close>

text \<open>
  The segments the half-edge builder accepts: those whose endpoints, resolved in the
  state the builder has reached, get distinct node ids (the test \<^verbatim>\<open>a == b\<close> of the
  source, negated).
\<close>

fun accepted :: "Segment list \<Rightarrow> RoomGraph \<Rightarrow> Segment list" where
  "accepted [] g = []"
| "accepted (s # segments) g =
     (if fst (resolve2 (seg_a s) (seg_b s) g) \<noteq> snd (resolve2 (seg_a s) (seg_b s) g)
      then [s] else [])
     @ accepted segments (addSegment s g)"

text \<open>The number of entries in all outgoing lists.\<close>

definition outgoing_total :: "RoomGraph \<Rightarrow> nat" where
  "outgoing_total g = sum_list (map (\<lambda>node. length (outgoingEdges node)) (m_nodes g))"

text \<open>
  A well-formed graph: the registry holds ids of existing nodes (and, for
  \<open>registry_inj\<close>, distinct keys have distinct ids); every half-edge
  carries its index as id, joins two distinct existing nodes and is paired with its
  twin, the even index with the next odd one; and the outgoing list of a node holds,
  once each, the ids of the half-edges that leave it.
\<close>

definition registry_ok :: "RoomGraph \<Rightarrow> bool" where
  "registry_ok g \<longleftrightarrow>
     (\<forall>key v. m_nodeIndex g key = Some v \<longrightarrow> 0 \<le> v \<and> v < int (length (m_nodes g)))"

definition registry_inj :: "RoomGraph \<Rightarrow> bool" where
  "registry_inj g \<longleftrightarrow>
     (\<forall>k1 k2 v. m_nodeIndex g k1 = Some v \<and> m_nodeIndex g k2 = Some v \<longrightarrow> k1 = k2)"

definition edge_ok :: "RoomGraph \<Rightarrow> nat \<Rightarrow> bool" where
  "edge_ok g i \<longleftrightarrow>
     (let E = m_edges g; e = E ! i; t = nat (e_twin e) in
      e_id e = int i \<and>
      (even i \<longrightarrow> e_twin e = int i + 1) \<and> (odd i \<longrightarrow> e_twin e = int i - 1) \<and>
      0 \<le> e_twin e \<and> t < length E \<and>
      e_twin (E ! t) = int i \<and> e_from (E ! t) = e_to e \<and> e_to (E ! t) = e_from e \<and>
      e_from e \<noteq> e_to e \<and>
      0 \<le> e_from e \<and> e_from e < int (length (m_nodes g)) \<and>
      0 \<le> e_to e \<and> e_to e < int (length (m_nodes g)))"

definition out_ok :: "RoomGraph \<Rightarrow> bool" where
  "out_ok g \<longleftrightarrow>
     (\<forall>n < length (m_nodes g).
        distinct (outgoingEdges (m_nodes g ! n)) \<and>
        set (outgoingEdges (m_nodes g ! n))
          = {x. 0 \<le> x \<and> x < int (length (m_edges g)) \<and> e_from (m_edges g ! nat x) = int n})"

definition graph_ok :: "RoomGraph \<Rightarrow> bool" where
  "graph_ok g \<longleftrightarrow>
     registry_ok g \<and> even (length (m_edges g)) \<and>
     (\<forall>i < length (m_edges g). edge_ok g i) \<and> out_ok g"

text \<open>
  A walk changes nothing but \<^verbatim>\<open>used\<close> flags: \<open>unmark\<close> forgets the flag, \<open>nxt\<close> reads
  the next relation as a function on indices, \<open>used_set\<close> is the set of used indices.
\<close>

definition unmark :: "HalfEdge \<Rightarrow> HalfEdge" where
  "unmark e = e\<lparr>e_used := False\<rparr>"

definition nxt :: "HalfEdge list \<Rightarrow> nat \<Rightarrow> nat" where
  "nxt E i = nat (e_next (E ! i))"

definition used_set :: "HalfEdge list \<Rightarrow> nat set" where
  "used_set E = {i. i < length E \<and> e_used (E ! i)}"

abbreviation mark :: "HalfEdge list \<Rightarrow> nat \<Rightarrow> HalfEdge list" where
  "mark E c \<equiv> E[c := (E ! c)\<lparr>e_used := True\<rparr>]"

text \<open>
  The next relation is well formed when every half-edge carries its index as id,
  leaves an existing node, and has a next edge that exists and differs from it, and
  when no two half-edges share their next edge.
\<close>

definition edges_wf :: "nat \<Rightarrow> HalfEdge list \<Rightarrow> bool" where
  "edges_wf nn E \<longleftrightarrow>
     (\<forall>i < length E.
        e_id (E ! i) = int i \<and> 0 \<le> e_from (E ! i) \<and> e_from (E ! i) < int nn \<and>
        0 \<le> e_next (E ! i) \<and> e_next (E ! i) < int (length E) \<and> e_next (E ! i) \<noteq> int i) \<and>
     (\<forall>i < length E. \<forall>j < length E. e_next (E ! i) = e_next (E ! j) \<longrightarrow> i = j)"

definition next_ok :: "RoomGraph \<Rightarrow> bool" where
  "next_ok g \<longleftrightarrow> edges_wf (length (m_nodes g)) (m_edges g)"

text \<open>What the filters of the cycle walker guarantee of a Room.\<close>

definition room_ok :: "Room \<Rightarrow> bool" where
  "room_ok r \<longleftrightarrow>
     3 \<le> length (polygon r) \<and> rd (1 / 1000000) \<le> computeSignedArea (polygon r) \<and>
     area r = computeSignedArea (polygon r) \<and>
     center r = computeCentroid (polygon r) (computeSignedArea (polygon r))"

text \<open>
  The signed area of the specification: the shoelace formula over the vertex loop in
  exact arithmetic, positive for counter-clockwise winding. \<open>computeSignedArea\<close> is
  the code's evaluation of it in double arithmetic.
\<close>

definition shoelace :: "Vec2 list \<Rightarrow> real" where
  "shoelace poly =
     (let n = length poly in
      sum_list (map (\<lambda>i. vx (poly ! i) * vy (poly ! ((i + 1) mod n))
                          - vx (poly ! ((i + 1) mod n)) * vy (poly ! i)) [0..<n]) / 2)"

text \<open>
  Concrete inputs: the 10 by 10 square with its segments listed counter-clockwise;
  the same square with the segments in another order and another direction; the
  rectangle with the sides \<open>5 / 4096\<close> and \<open>944473296573929 / 2^60\<close> (the doubles
  \<open>0.001220703125\<close> and \<open>0.0008192\<close>), whose area is the tolerance; the square whose
  side is the double \<open>0.001\<close>; and the square of side \<open>2^-7\<close> with its lower left
  corner at \<open>(2097152.1875, 2097152.1875)\<close>.
\<close>

definition square10 :: "Segment list" where
  "square10 = [\<lparr>seg_a = \<lparr>vx = 0, vy = 0\<rparr>, seg_b = \<lparr>vx = 10, vy = 0\<rparr>\<rparr>,
             \<lparr>seg_a = \<lparr>vx = 10, vy = 0\<rparr>, seg_b = \<lparr>vx = 10, vy = 10\<rparr>\<rparr>,
             \<lparr>seg_a = \<lparr>vx = 10, vy = 10\<rparr>, seg_b = \<lparr>vx = 0, vy = 10\<rparr>\<rparr>,
             \<lparr>seg_a = \<lparr>vx = 0, vy = 10\<rparr>, seg_b = \<lparr>vx = 0, vy = 0\<rparr>\<rparr>]"

definition square10_cw :: "Segment list" where
  "square10_cw =
     [\<lparr>seg_a = \<lparr>vx = 10, vy = 10\<rparr>, seg_b = \<lparr>vx = 10, vy = 0\<rparr>\<rparr>,
      \<lparr>seg_a = \<lparr>vx = 0, vy = 0\<rparr>, seg_b = \<lparr>vx = 0, vy = 10\<rparr>\<rparr>,
      \<lparr>seg_a = \<lparr>vx = 10, vy = 0\<rparr>, seg_b = \<lparr>vx = 0, vy = 0\<rparr>\<rparr>,
      \<lparr>seg_a = \<lparr>vx = 0, vy = 10\<rparr>, seg_b = \<lparr>vx = 10, vy = 10\<rparr>\<rparr>]"

definition square10_sorted :: RoomGraph where
  "square10_sorted = sortOutgoingByAngle (buildNodesAndEdges square10 (clear RoomGraph_new))"

definition tolerance_rect :: "Segment list" where
  "tolerance_rect =
     [\<lparr>seg_a = \<lparr>vx = 0, vy = 0\<rparr>, seg_b = \<lparr>vx = 5 / 4096, vy = 0\<rparr>\<rparr>,
      \<lparr>seg_a = \<lparr>vx = 5 / 4096, vy = 0\<rparr>,
       seg_b = \<lparr>vx = 5 / 4096, vy = 944473296573929 / 2 ^ 60\<rparr>\<rparr>,
      \<lparr>seg_a = \<lparr>vx = 5 / 4096, vy = 944473296573929 / 2 ^ 60\<rparr>,
       seg_b = \<lparr>vx = 0, vy = 944473296573929 / 2 ^ 60\<rparr>\<rparr>,
      \<lparr>seg_a = \<lparr>vx = 0, vy = 944473296573929 / 2 ^ 60\<rparr>, seg_b = \<lparr>vx = 0, vy = 0\<rparr>\<rparr>]"

definition tiny_square :: "Segment list" where
  "tiny_square =
     [\<lparr>seg_a = \<lparr>vx = 0, vy = 0\<rparr>, seg_b = \<lparr>vx = rd (1 / 1000), vy = 0\<rparr>\<rparr>,
      \<lparr>seg_a = \<lparr>vx = rd (1 / 1000), vy = 0\<rparr>, seg_b = \<lparr>vx = rd (1 / 1000), vy = rd (1 / 1000)\<rparr>\<rparr>,
      \<lparr>seg_a = \<lparr>vx = rd (1 / 1000), vy = rd (1 / 1000)\<rparr>, seg_b = \<lparr>vx = 0, vy = rd (1 / 1000)\<rparr>\<rparr>,
      \<lparr>seg_a = \<lparr>vx = 0, vy = rd (1 / 1000)\<rparr>, seg_b = \<lparr>vx = 0, vy = 0\<rparr>\<rparr>]"

definition offset_square :: "Segment list" where
  "offset_square =
     [\<lparr>seg_a = \<lparr>vx = 33554435 / 16, vy = 33554435 / 16\<rparr>,
       seg_b = \<lparr>vx = 268435481 / 128, vy = 33554435 / 16\<rparr>\<rparr>,
      \<lparr>seg_a = \<lparr>vx = 268435481 / 128, vy = 33554435 / 16\<rparr>,
       seg_b = \<lparr>vx = 268435481 / 128, vy = 268435481 / 128\<rparr>\<rparr>,
      \<lparr>seg_a = \<lparr>vx = 268435481 / 128, vy = 268435481 / 128\<rparr>,
       seg_b = \<lparr>vx = 33554435 / 16, vy = 268435481 / 128\<rparr>\<rparr>,
      \<lparr>seg_a = \<lparr>vx = 33554435 / 16, vy = 268435481 / 128\<rparr>,
       seg_b = \<lparr>vx = 33554435 / 16, vy = 33554435 / 16\<rparr>\<rparr>]"

section \<open>Lemmas\<close>

subsection \<open>Rounding to a double\<close>

text \<open>
  \<open>rd\<close> on concrete numbers: a number in the binade \<open>[2^e, 2^(e+1))\<close> is rounded to a
  multiple of \<open>2^(e - 52)\<close>; natural numbers below \<open>2^53\<close> are doubles.
\<close>

lemma rd_0: "rd 0 = 0"
  by (simp add: rd_def)

lemma rd_minus: "rd (- x) = - rd x"
  by (simp add: rd_def Let_def sgn_minus)

lemma rne_of_int: "rne (of_int k) = k"
  by (simp add: rne_def)

lemma floor_log2_eq:
  assumes "2 powr of_int e \<le> x" and "x < 2 powr (of_int e + 1)"
  shows "\<lfloor>log 2 x\<rfloor> = e"
proof -
  have pos: "0 < x" using assms(1) powr_gt_zero [of 2 "of_int e"] by linarith
  have "of_int e \<le> log 2 x" using assms(1) pos by (simp add: le_log_iff)
  moreover have "log 2 x < of_int e + 1" using assms(2) pos by (simp add: log_less_iff)
  ultimately show ?thesis by linarith
qed

lemma rd_binade:
  assumes "2 powr of_int e \<le> \<bar>x\<bar>" and "\<bar>x\<bar> < 2 powr (of_int e + 1)" and "- 1022 \<le> e"
  shows "rd x = sgn x * of_int (rne (\<bar>x\<bar> / 2 powr (of_int e - 52))) * 2 powr (of_int e - 52)"
proof -
  have "x \<noteq> 0" using assms(1) powr_gt_zero [of 2 "of_int e"] by auto
  moreover have "\<lfloor>log 2 \<bar>x\<bar>\<rfloor> = e" using floor_log2_eq [OF assms(1,2)] .
  ultimately show ?thesis using assms(3) by (simp add: rd_def Let_def max_def)
qed

lemma two_powr_nat: "(2::real) powr real n = 2 ^ n"
  by (simp add: powr_realpow)

lemma two_powr_neg_nat: "(2::real) powr (- real n) = 1 / 2 ^ n"
  by (simp add: powr_minus powr_realpow divide_inverse)

lemma two_powr_succ: "(2::real) powr (x + 1) = 2 * 2 powr x"
  by (simp add: powr_add)

lemma rd_big:
  assumes "2 ^ n \<le> \<bar>x\<bar>" and "\<bar>x\<bar> < 2 * 2 ^ n" and "n \<le> 52"
  shows "rd x = sgn x * of_int (rne (\<bar>x\<bar> * 2 ^ (52 - n))) / 2 ^ (52 - n)"
proof -
  have a: "2 powr of_int (int n) \<le> \<bar>x\<bar>" using assms(1) by (simp add: two_powr_nat)
  have b: "\<bar>x\<bar> < 2 powr (of_int (int n) + 1)"
    using assms(2) by (simp add: two_powr_succ two_powr_nat)
  have "of_int (int n) - (52::real) = - real (52 - n)" using assms(3) by simp
  then have u: "(2::real) powr (of_int (int n) - 52) = 1 / 2 ^ (52 - n)"
    by (simp only: two_powr_neg_nat)
  have "- 1022 \<le> int n" by simp
  from rd_binade [OF a b this] show ?thesis unfolding u by simp
qed

lemma rd_small:
  assumes "1 / 2 ^ n \<le> \<bar>x\<bar>" and "\<bar>x\<bar> < 2 / 2 ^ n" and "n \<le> 1022"
  shows "rd x = sgn x * of_int (rne (\<bar>x\<bar> * 2 ^ (n + 52))) / 2 ^ (n + 52)"
proof -
  have p: "(2::real) powr of_int (- int n) = 1 / 2 ^ n"
    using two_powr_neg_nat [of n] by simp
  have a: "2 powr of_int (- int n) \<le> \<bar>x\<bar>" using assms(1) by (simp only: p)
  have b: "\<bar>x\<bar> < 2 powr (of_int (- int n) + 1)"
    using assms(2) unfolding two_powr_succ p by simp
  have "of_int (- int n) - (52::real) = - real (n + 52)" by simp
  then have u: "(2::real) powr (of_int (- int n) - 52) = 1 / 2 ^ (n + 52)"
    by (simp only: two_powr_neg_nat)
  have "- 1022 \<le> - int n" using assms(3) by simp
  from rd_binade [OF a b this] show ?thesis unfolding u by simp
qed

lemma rd_of_nat:
  assumes "k < 2 ^ 53"
  shows "rd (of_nat k) = of_nat k"
proof (cases "k = 0")
  case True
  then show ?thesis by (simp add: rd_0)
next
  case False
  then have "1 \<le> k" by simp
  from ex_power_ivl1 [OF _ this, of 2] obtain n where n: "2 ^ n \<le> k" "k < 2 ^ (n + 1)" by auto
  have "(2::nat) ^ n < 2 ^ 53" using n(1) assms by linarith
  then have "n < 53" using power_strict_increasing_iff [of "2::nat" n 53] by fastforce
  then have n52: "n \<le> 52" by simp
  have a: "(2::real) ^ n \<le> \<bar>of_nat k\<bar>"
    using n(1) by (metis abs_of_nat of_nat_le_iff of_nat_numeral of_nat_power)
  have b: "\<bar>of_nat k :: real\<bar> < 2 * 2 ^ n"
    using n(2) by (metis abs_of_nat of_nat_less_iff of_nat_numeral of_nat_power power_Suc Suc_eq_plus1)
  have "\<bar>of_nat k :: real\<bar> * 2 ^ (52 - n) = of_int (int (k * 2 ^ (52 - n)))" by simp
  then have "rne (\<bar>of_nat k :: real\<bar> * 2 ^ (52 - n)) = int (k * 2 ^ (52 - n))"
    by (simp only: rne_of_int)
  then show ?thesis using rd_big [OF a b n52] False by simp
qed

lemma rd_numeral: "numeral k < (2::nat) ^ 53 \<Longrightarrow> rd (numeral k) = numeral k"
  using rd_of_nat [of "numeral k"] by simp

lemma rd_1: "rd 1 = 1"
  using rd_of_nat [of 1] by simp

lemmas rd_simps = rd_0 rd_1 rd_minus rd_numeral dadd_def dsub_def dmul_def ddiv_def

lemma rd_600: "rd (1 / 600) = 7686143364045647 / 4611686018427387904"
  using rd_small [of 10 "1 / 600"] by (simp add: rne_def)

lemma rd_tol: "rd (1 / 1000000) = 4722366482869645 / 4722366482869645213696"
  using rd_small [of 20 "1 / 1000000"] by (simp add: rne_def)

lemma rd_milli: "rd (1 / 1000) = 1152921504606847 / 1152921504606846976"
  using rd_small [of 10 "1 / 1000"] by (simp add: rne_def)

subsection \<open>Numbers that are doubles\<close>

text \<open>A dyadic number with a numerator below \<open>2^53\<close> is a double, down to the subnormal ones.\<close>

lemma rd_dyadic:
  assumes k: "\<bar>k\<bar> < 2 ^ 53" and m: "m \<le> 1074"
  shows "rd (of_int k / 2 ^ m) = of_int k / 2 ^ m"
proof (cases "k = 0")
  case True
  then show ?thesis by (simp add: rd_0)
next
  case False
  define x :: real where "x = of_int k / 2 ^ m"
  define e0 where "e0 = \<lfloor>log 2 \<bar>x\<bar>\<rfloor>"
  define e where "e = max e0 (- 1022)"
  have x0: "x \<noteq> 0" using False by (simp add: x_def)
  then have ax: "0 < \<bar>x\<bar>" by simp
  have absx: "\<bar>x\<bar> = of_int \<bar>k\<bar> * 2 powr (- real m)"
    by (simp add: x_def abs_divide two_powr_neg_nat)
  have "of_int e0 \<le> log 2 \<bar>x\<bar>" by (simp add: e0_def)
  then have "2 powr of_int e0 \<le> \<bar>x\<bar>" using ax by (simp add: le_log_iff)
  then have "2 powr of_int e0 * 2 powr real m \<le> of_int \<bar>k\<bar> * 2 powr (- real m) * 2 powr real m"
    unfolding absx by (simp only: mult_le_cancel_right_pos powr_gt_zero)
  moreover have "2 powr (- real m) * 2 powr real m = (1::real)"
    by (simp add: powr_add [symmetric])
  then have "of_int \<bar>k\<bar> * 2 powr (- real m) * 2 powr real m = (of_int \<bar>k\<bar> :: real)"
    by (simp only: mult.assoc mult_1_right)
  ultimately have "2 powr (of_int e0 + real m) \<le> of_int \<bar>k\<bar>"
    by (simp only: powr_add)
  also have "of_int \<bar>k\<bar> < (2::real) ^ 53" using k by (metis of_int_less_iff of_int_numeral of_int_power)
  also have "(2::real) ^ 53 = 2 powr real 53" by (simp only: two_powr_nat)
  finally have "2 powr (of_int e0 + real m) < 2 powr real 53" .
  then have "of_int e0 + real m < real 53" by (rule powr_less_cancel) simp
  then have e0m: "e0 + int m \<le> 52" by linarith
  define j where "j = nat (52 - e - int m)"
  have j: "int j = 52 - e - int m" using e0m m by (simp add: j_def e_def max_def)
  have "real j = 52 - of_int e - real m" using j by linarith
  then have "\<bar>x\<bar> / 2 powr (of_int e - 52) = of_int \<bar>k\<bar> * 2 powr real j"
    unfolding absx by (simp add: powr_diff powr_minus field_simps powr_add [symmetric])
  also have "\<dots> = of_int (\<bar>k\<bar> * 2 ^ j)" by (simp add: two_powr_nat)
  finally have q: "\<bar>x\<bar> / 2 powr (of_int e - 52) = of_int (\<bar>k\<bar> * 2 ^ j)" .
  have "rd x = sgn x * of_int (rne (\<bar>x\<bar> / 2 powr (of_int e - 52))) * 2 powr (of_int e - 52)"
    using x0 by (simp add: rd_def Let_def e_def e0_def)
  also have "\<dots> = sgn x * (\<bar>x\<bar> / 2 powr (of_int e - 52)) * 2 powr (of_int e - 52)"
    unfolding q rne_of_int ..
  also have "\<dots> = sgn x * \<bar>x\<bar>" by simp
  also have "\<dots> = x" by (simp add: sgn_mult_abs)
  finally show ?thesis by (simp add: x_def)
qed

subsection \<open>Area and centroid of the 10 by 10 square\<close>

lemmas area_defs = computeSignedArea_def cross_def upt_conv_Cons rd_simps

lemma area_sq_a:
  "computeSignedArea [\<lparr>vx = 0, vy = 0\<rparr>, \<lparr>vx = 10, vy = 0\<rparr>, \<lparr>vx = 10, vy = 10\<rparr>, \<lparr>vx = 0, vy = 10\<rparr>] = 100"
  by (simp add: area_defs)

lemma area_sq_b:
  "computeSignedArea [\<lparr>vx = 10, vy = 0\<rparr>, \<lparr>vx = 0, vy = 0\<rparr>, \<lparr>vx = 0, vy = 10\<rparr>, \<lparr>vx = 10, vy = 10\<rparr>] = - 100"
  by (simp add: area_defs)

lemma area_sq_c:
  "computeSignedArea [\<lparr>vx = 10, vy = 0\<rparr>, \<lparr>vx = 10, vy = 10\<rparr>, \<lparr>vx = 0, vy = 10\<rparr>, \<lparr>vx = 0, vy = 0\<rparr>] = 100"
  by (simp add: area_defs)

lemma area_sq_d:
  "computeSignedArea [\<lparr>vx = 10, vy = 10\<rparr>, \<lparr>vx = 10, vy = 0\<rparr>, \<lparr>vx = 0, vy = 0\<rparr>, \<lparr>vx = 0, vy = 10\<rparr>] = - 100"
  by (simp add: area_defs)

lemma rd_5: "rd (2882303761517117625 / 576460752303423488) = 5"
  using rd_big [of 2 "2882303761517117625 / 576460752303423488"] by (simp add: rne_def)

lemma cent_sq_a:
  "computeCentroid [\<lparr>vx = 0, vy = 0\<rparr>, \<lparr>vx = 10, vy = 0\<rparr>, \<lparr>vx = 10, vy = 10\<rparr>, \<lparr>vx = 0, vy = 10\<rparr>] 100
     = \<lparr>vx = 5, vy = 5\<rparr>"
  by (simp add: computeCentroid_def cross_def upt_conv_Cons rd_simps rd_600 rd_5)

lemma cent_sq_c:
  "computeCentroid [\<lparr>vx = 10, vy = 0\<rparr>, \<lparr>vx = 10, vy = 10\<rparr>, \<lparr>vx = 0, vy = 10\<rparr>, \<lparr>vx = 0, vy = 0\<rparr>] 100
     = \<lparr>vx = 5, vy = 5\<rparr>"
  by (simp add: computeCentroid_def cross_def upt_conv_Cons rd_simps rd_600 rd_5)

lemma tol_pos: "\<not> 100 < rd (1 / 1000000)" "\<not> rd (1 / 1000000) \<le> 0" "0 < rd (1 / 1000000)"
  by (simp_all add: rd_tol)

lemmas square_eval = area_sq_a area_sq_b area_sq_c area_sq_d cent_sq_a cent_sq_c tol_pos

subsection \<open>Areas at the tolerance and at large coordinates\<close>

text \<open>
  The tolerance \<open>rd (1 / 1000000)\<close> is \<open>4722366482869645 / 2^72\<close>. It is the computed
  area of the rectangle with the sides \<open>5 / 4096\<close> and \<open>944473296573929 / 2^60\<close>, where
  no operation rounds, and of the square whose side is the double \<open>rd (1 / 1000)\<close>,
  where the product of the sides is rounded down to it.
\<close>

lemma rd_tol_fix:
  "rd (4722366482869645 / 4722366482869645213696) = 4722366482869645 / 4722366482869645213696"
  using rd_dyadic [of 4722366482869645 72] by simp

lemma rd_tol_twice:
  "rd (4722366482869645 / 2361183241434822606848) = 4722366482869645 / 2361183241434822606848"
  using rd_dyadic [of 4722366482869645 71] by simp

lemma rd_milli_sq:
  "rd (1329227995784915928244039281409 / 1329227995784915872903807060280344576)
     = 4722366482869645 / 4722366482869645213696"
  using rd_small [of 20 "1329227995784915928244039281409 / 1329227995784915872903807060280344576"]
  by (simp add: rne_def)

lemmas tol_rd = rd_tol rd_tol_fix rd_tol_twice rd_milli_sq

lemma area_rect_a:
  "computeSignedArea
     [\<lparr>vx = 0, vy = 0\<rparr>, \<lparr>vx = 5 / 4096, vy = 0\<rparr>,
      \<lparr>vx = 5 / 4096, vy = 944473296573929 / 1152921504606846976\<rparr>,
      \<lparr>vx = 0, vy = 944473296573929 / 1152921504606846976\<rparr>]
   = 4722366482869645 / 4722366482869645213696"
  by (simp add: area_defs tol_rd)

lemma area_rect_b:
  "computeSignedArea
     [\<lparr>vx = 5 / 4096, vy = 0\<rparr>, \<lparr>vx = 0, vy = 0\<rparr>,
      \<lparr>vx = 0, vy = 944473296573929 / 1152921504606846976\<rparr>,
      \<lparr>vx = 5 / 4096, vy = 944473296573929 / 1152921504606846976\<rparr>]
   = - (4722366482869645 / 4722366482869645213696)"
  by (simp add: area_defs tol_rd)

lemma area_tiny_a:
  "computeSignedArea
     [\<lparr>vx = 0, vy = 0\<rparr>, \<lparr>vx = 1152921504606847 / 1152921504606846976, vy = 0\<rparr>,
      \<lparr>vx = 1152921504606847 / 1152921504606846976, vy = 1152921504606847 / 1152921504606846976\<rparr>,
      \<lparr>vx = 0, vy = 1152921504606847 / 1152921504606846976\<rparr>]
   = 4722366482869645 / 4722366482869645213696"
  by (simp add: area_defs tol_rd)

lemma area_tiny_b:
  "computeSignedArea
     [\<lparr>vx = 1152921504606847 / 1152921504606846976, vy = 0\<rparr>, \<lparr>vx = 0, vy = 0\<rparr>,
      \<lparr>vx = 0, vy = 1152921504606847 / 1152921504606846976\<rparr>,
      \<lparr>vx = 1152921504606847 / 1152921504606846976, vy = 1152921504606847 / 1152921504606846976\<rparr>]
   = - (4722366482869645 / 4722366482869645213696)"
  by (simp add: area_defs tol_rd)

text \<open>
  The square of side \<open>2^-7\<close> with its lower left corner at \<open>(2097152.1875, 2097152.1875)\<close>:
  the products of the coordinates are near \<open>2^42\<close>, where doubles are \<open>2^-10\<close> apart,
  and the computed area of the counter-clockwise loop is \<open>- 1 / 1024\<close>, that of the
  clockwise loop \<open>1 / 1024\<close>.
\<close>

lemma rd_off_aa: "rd (1125900108169225 / 256) = 1125900108169225 / 256"
  using rd_dyadic [of 1125900108169225 8] by simp

lemma rd_off_ab: "rd (9007200898908235 / 2048) = 2251800224727059 / 512"
  using rd_big [of 42 "9007200898908235 / 2048"] by (simp add: rne_def)

lemma rd_off_bb: "rd (72057607459701361 / 16384) = 4503600466231335 / 1024"
  using rd_big [of 42 "72057607459701361 / 16384"] by (simp add: rne_def)

lemma rd_off_sums:
  "rd (1 / 1024) = 1 / 1024" "rd (1 / 512) = 1 / 512"
  "rd (16777217 / 1024) = 16777217 / 1024" "rd (8388609 / 512) = 8388609 / 512"
  "rd (16777219 / 1024) = 16777219 / 1024" "rd (8388609 / 256) = 8388609 / 256"
  using rd_dyadic [of 1 10] rd_dyadic [of 1 9] rd_dyadic [of 16777217 10]
    rd_dyadic [of 8388609 9] rd_dyadic [of 16777219 10] rd_dyadic [of 8388609 8]
  by simp_all

lemmas off_rd = rd_off_aa rd_off_ab rd_off_bb rd_off_sums

lemma area_off_a:
  "computeSignedArea
     [\<lparr>vx = 33554435 / 16, vy = 33554435 / 16\<rparr>, \<lparr>vx = 268435481 / 128, vy = 33554435 / 16\<rparr>,
      \<lparr>vx = 268435481 / 128, vy = 268435481 / 128\<rparr>, \<lparr>vx = 33554435 / 16, vy = 268435481 / 128\<rparr>]
   = - (1 / 1024)"
  by (simp add: area_defs off_rd)

lemma area_off_b:
  "computeSignedArea
     [\<lparr>vx = 268435481 / 128, vy = 33554435 / 16\<rparr>, \<lparr>vx = 33554435 / 16, vy = 33554435 / 16\<rparr>,
      \<lparr>vx = 33554435 / 16, vy = 268435481 / 128\<rparr>, \<lparr>vx = 268435481 / 128, vy = 268435481 / 128\<rparr>]
   = 1 / 1024"
  by (simp add: area_defs off_rd)

subsection \<open>Well-formed graphs: the registry and the half-edge builder\<close>

lemma graph_ok_clear: "graph_ok (clear g)"
  by (simp add: graph_ok_def registry_ok_def out_ok_def clear_def)

lemma findOrCreateNode_cases:
  assumes "findOrCreateNode p g = (a, g')"
  shows "(m_nodeIndex g (gridKey (m_snapSize g) p) = Some a \<and> g' = g) \<or>
         (m_nodeIndex g (gridKey (m_snapSize g) p) = None \<and> a = int (length (m_nodes g)) \<and>
          g' = g\<lparr>m_nodes := m_nodes g @ [\<lparr>n_id = a, pos = p, outgoingEdges = []\<rparr>],
                 m_nodeIndex := (m_nodeIndex g)(gridKey (m_snapSize g) p \<mapsto> a)\<rparr>)"
  using assms by (auto simp: findOrCreateNode_def Let_def split: option.splits)

lemma findOrCreateNode_edges:
  "findOrCreateNode p g = (a, g') \<Longrightarrow> m_edges g' = m_edges g \<and> m_snapSize g' = m_snapSize g \<and> m_rooms g' = m_rooms g"
  by (drule findOrCreateNode_cases) auto

lemma findOrCreateNode_nodes:
  assumes "findOrCreateNode p g = (a, g')"
  shows "length (m_nodes g) \<le> length (m_nodes g')"
    and "n < length (m_nodes g) \<Longrightarrow> m_nodes g' ! n = m_nodes g ! n"
    and "length (m_nodes g) \<le> n \<Longrightarrow> n < length (m_nodes g') \<Longrightarrow> outgoingEdges (m_nodes g' ! n) = []"
  using findOrCreateNode_cases [OF assms] by (auto simp: nth_append less_Suc_eq)

text \<open>
  The ids the registry returns are ids of existing nodes, so that the accesses
  \<^verbatim>\<open>m_nodes[a]\<close> and \<^verbatim>\<open>m_nodes[b]\<close> of the builder are in range.
\<close>

lemma findOrCreateNode_range:
  assumes "findOrCreateNode p g = (a, g')" and "registry_ok g"
  shows "0 \<le> a \<and> a < int (length (m_nodes g'))" and "registry_ok g'"
  using findOrCreateNode_cases [OF assms(1)] assms(2)
  unfolding registry_ok_def by (fastforce split: if_splits)+

lemma edge_ok_mono:
  assumes "edge_ok g i" and "m_edges g' = m_edges g" and "length (m_nodes g) \<le> length (m_nodes g')"
  shows "edge_ok g' i"
  using assms unfolding edge_ok_def Let_def by auto

lemma findOrCreateNode_ok:
  assumes "findOrCreateNode p g = (a, g')" and "graph_ok g"
  shows "graph_ok g'"
proof -
  note fc = findOrCreateNode_edges [OF assms(1)] findOrCreateNode_nodes [OF assms(1)]
  have reg: "registry_ok g'"
    using findOrCreateNode_range(2) [OF assms(1)] assms(2) by (simp add: graph_ok_def)
  have edges: "\<forall>i < length (m_edges g'). edge_ok g' i"
    using assms(2) fc(1,2) edge_ok_mono [of g _ g'] by (simp add: graph_ok_def)
  have "out_ok g'"
    unfolding out_ok_def
  proof (intro allI impI)
    fix n assume n: "n < length (m_nodes g')"
    show "distinct (outgoingEdges (m_nodes g' ! n)) \<and>
          set (outgoingEdges (m_nodes g' ! n))
            = {x. 0 \<le> x \<and> x < int (length (m_edges g')) \<and> e_from (m_edges g' ! nat x) = int n}"
    proof (cases "n < length (m_nodes g)")
      case True
      then show ?thesis using assms(2) fc by (simp add: graph_ok_def out_ok_def)
    next
      case False
      then have "outgoingEdges (m_nodes g' ! n) = []" using fc(4) n by simp
      moreover have "\<not> (0 \<le> x \<and> x < int (length (m_edges g')) \<and> e_from (m_edges g' ! nat x) = int n)" for x
      proof
        assume x: "0 \<le> x \<and> x < int (length (m_edges g')) \<and> e_from (m_edges g' ! nat x) = int n"
        then have "nat x < length (m_edges g)" using fc(1) by auto
        then have "edge_ok g (nat x)" using assms(2) by (simp add: graph_ok_def)
        then have "e_from (m_edges g ! nat x) < int (length (m_nodes g))"
          by (simp add: edge_ok_def Let_def)
        with x False fc(1) show False by simp
      qed
      ultimately show ?thesis by simp
    qed
  qed
  moreover have "even (length (m_edges g'))"
    using assms(2) fc(1) by (simp add: graph_ok_def)
  ultimately show ?thesis using reg edges by (simp add: graph_ok_def)
qed

lemma push_outgoing_props:
  assumes "0 \<le> a" and "a < int (length nodes)"
  shows "length (push_outgoing a e nodes) = length nodes"
    and "n < length nodes \<Longrightarrow>
         outgoingEdges (push_outgoing a e nodes ! n)
           = outgoingEdges (nodes ! n) @ (if int n = a then [e] else [])"
    and "n < length nodes \<Longrightarrow> pos (push_outgoing a e nodes ! n) = pos (nodes ! n)"
  using assms by (auto simp: push_outgoing_def nth_list_update)

lemma out_set_append:
  "{x. 0 \<le> x \<and> x < int (length (E @ [e1, e2])) \<and> e_from ((E @ [e1, e2]) ! nat x) = n}
   = {x. 0 \<le> x \<and> x < int (length E) \<and> e_from (E ! nat x) = n}
     \<union> (if e_from e1 = n then {int (length E)} else {})
     \<union> (if e_from e2 = n then {int (length E) + 1} else {})"
proof -
  have *: "(E @ [e1, e2]) ! nat x =
           (if x < int (length E) then E ! nat x else if x = int (length E) then e1 else e2)"
    if x0: "0 \<le> x" and x1: "x < int (length E) + 2" for x
  proof -
    consider "x < int (length E)" | "x = int (length E)" | "x = int (length E) + 1"
      using x0 x1 by linarith
    then show ?thesis
    proof cases
      case 1 then show ?thesis using x0 by (simp add: nth_append)
    next
      case 2 then show ?thesis by (simp add: nth_append)
    next
      case 3
      then have "nat x = Suc (length E)" by simp
      then show ?thesis using 3 by (simp add: nth_append)
    qed
  qed
  show ?thesis
    apply (rule set_eqI)
    apply (simp only: mem_Collect_eq Un_iff)
    subgoal for x
      apply (cases "0 \<le> x \<and> x < int (length E) + 2")
       apply (simp add: *)
       apply (auto split: if_splits)
      done
    done
qed

lemma addSegment_unfold:
  assumes "findOrCreateNode (seg_a s) g = (a, g1)" and "findOrCreateNode (seg_b s) g1 = (b, g2)"
  shows "addSegment s g =
     (if a = b then g2
      else g2\<lparr>m_nodes := push_outgoing b (int (length (m_edges g2)) + 1)
                           (push_outgoing a (int (length (m_edges g2))) (m_nodes g2)),
              m_edges := m_edges g2 @
                [\<lparr>e_id = int (length (m_edges g2)), e_from = a, e_to = b,
                  e_twin = int (length (m_edges g2)) + 1, e_next = - 1, e_used = False,
                  e_angle = atan2 (vy (pos (m_nodes g2 ! nat b)) - vy (pos (m_nodes g2 ! nat a)))
                                  (vx (pos (m_nodes g2 ! nat b)) - vx (pos (m_nodes g2 ! nat a)))\<rparr>,
                 \<lparr>e_id = int (length (m_edges g2)) + 1, e_from = b, e_to = a,
                  e_twin = int (length (m_edges g2)), e_next = - 1, e_used = False,
                  e_angle = atan2 (vy (pos (m_nodes g2 ! nat a)) - vy (pos (m_nodes g2 ! nat b)))
                                  (vx (pos (m_nodes g2 ! nat a)) - vx (pos (m_nodes g2 ! nat b)))\<rparr>]\<rparr>)"
  using assms by (simp add: addSegment_def Let_def)

lemma edge_ok_append_old:
  assumes "edge_ok g i" and "i < length (m_edges g)"
    and "m_edges g' = m_edges g @ es" and "length (m_nodes g') = length (m_nodes g)"
  shows "edge_ok g' i"
  using assms unfolding edge_ok_def Let_def by (simp add: nth_append)

text \<open>
  One iteration of the builder keeps the graph well formed: the two new half-edges
  take the next two indices, an even one and the odd one after it, and each enters
  the outgoing list of its origin once.
\<close>

lemma addSegment_ok:
  assumes "graph_ok g"
  shows "graph_ok (addSegment s g)"
proof -
  obtain a g1 where f1: "findOrCreateNode (seg_a s) g = (a, g1)" by (cases "findOrCreateNode (seg_a s) g")
  obtain b g2 where f2: "findOrCreateNode (seg_b s) g1 = (b, g2)" by (cases "findOrCreateNode (seg_b s) g1")
  have ok1: "graph_ok g1" using findOrCreateNode_ok [OF f1 assms] .
  have ok2: "graph_ok g2" using findOrCreateNode_ok [OF f2 ok1] .
  have a1: "0 \<le> a \<and> a < int (length (m_nodes g1))"
    using findOrCreateNode_range(1) [OF f1] assms by (simp add: graph_ok_def)
  have b2: "0 \<le> b" "b < int (length (m_nodes g2))"
    using findOrCreateNode_range(1) [OF f2] ok1 by (simp_all add: graph_ok_def)
  have a2: "0 \<le> a" "a < int (length (m_nodes g2))"
    using a1 findOrCreateNode_nodes(1) [OF f2] by simp_all
  show ?thesis
  proof (cases "a = b")
    case True
    then show ?thesis using ok2 by (simp add: addSegment_unfold [OF f1 f2])
  next
    case False
    define E where "E = m_edges g2"
    define N where "N = m_nodes g2"
    define g3 where "g3 = addSegment s g"
    define N1 where "N1 = push_outgoing a (int (length E)) N"
    define N3 where "N3 = push_outgoing b (int (length E) + 1) N1"
    obtain e1 e2 where g3: "g3 = g2\<lparr>m_nodes := N3, m_edges := E @ [e1, e2]\<rparr>"
      and e1: "e_id e1 = int (length E)" "e_from e1 = a" "e_to e1 = b" "e_twin e1 = int (length E) + 1"
      and e2: "e_id e2 = int (length E) + 1" "e_from e2 = b" "e_to e2 = a" "e_twin e2 = int (length E)"
      using False by (simp add: g3_def addSegment_unfold [OF f1 f2] E_def N_def N1_def N3_def)
    have lenN1: "length N1 = length N"
      using push_outgoing_props(1) [of a N] a2 by (simp add: N1_def N_def)
    have lenN3: "length N3 = length N"
      using push_outgoing_props(1) [of b N1] b2 lenN1 by (simp add: N3_def N_def)
    have outN3: "outgoingEdges (N3 ! n)
        = outgoingEdges (N ! n) @ (if int n = a then [int (length E)] else [])
            @ (if int n = b then [int (length E) + 1] else [])" if "n < length N" for n
      using push_outgoing_props(2) [of a N n "int (length E)"]
            push_outgoing_props(2) [of b N1 n "int (length E) + 1"] a2 b2 lenN1 that
      by (simp add: N3_def N1_def N_def)
    have reg: "registry_ok g3"
      using ok2 lenN3 by (simp add: graph_ok_def registry_ok_def g3 N_def)
    have ev: "even (length E)" using ok2 by (simp add: graph_ok_def E_def)
    have edges: "edge_ok g3 i" if i: "i < length (m_edges g3)" for i
    proof -
      have "i < Suc (Suc (length E))" using i by (simp add: g3)
      then consider "i < length E" | "i = length E" | "i = Suc (length E)"
        by linarith
      then show ?thesis
      proof cases
        case 1
        then have i2: "i < length (m_edges g2)" by (simp add: E_def)
        then have "edge_ok g2 i" using ok2 by (simp add: graph_ok_def)
        then show ?thesis
          using i2 by (rule edge_ok_append_old) (simp_all add: g3 E_def lenN3 N_def)
      next
        case 2
        then show ?thesis
          using e1 e2 a2 b2 False ev
          by (simp add: edge_ok_def Let_def g3 nth_append lenN3 N_def nat_add_distrib)
      next
        case 3
        then show ?thesis
          using e1 e2 a2 b2 False ev
          by (simp add: edge_ok_def Let_def g3 nth_append lenN3 N_def)
      qed
    qed
    have out: "out_ok g3"
      unfolding out_ok_def
    proof (intro allI impI)
      fix n assume "n < length (m_nodes g3)"
      then have n: "n < length N" by (simp add: g3 lenN3)
      have old: "distinct (outgoingEdges (N ! n))"
        "set (outgoingEdges (N ! n)) = {x. 0 \<le> x \<and> x < int (length E) \<and> e_from (E ! nat x) = int n}"
        using ok2 n by (simp_all add: graph_ok_def out_ok_def N_def E_def)
      have "distinct (outgoingEdges (N3 ! n))"
        using old False by (simp add: outN3 [OF n])
      moreover have "set (outgoingEdges (N3 ! n))
         = {x. 0 \<le> x \<and> x < int (length (E @ [e1, e2])) \<and> e_from ((E @ [e1, e2]) ! nat x) = int n}"
        unfolding out_set_append using old(2) e1 e2 by (auto simp: outN3 [OF n])
      ultimately show "distinct (outgoingEdges (m_nodes g3 ! n)) \<and>
          set (outgoingEdges (m_nodes g3 ! n))
            = {x. 0 \<le> x \<and> x < int (length (m_edges g3)) \<and> e_from (m_edges g3 ! nat x) = int n}"
        by (simp add: g3)
    qed
    have ev: "even (length E)" using ok2 by (simp add: graph_ok_def E_def)
    then have "even (length (m_edges g3))" by (simp add: g3)
    then show ?thesis
      using reg edges out by (simp add: graph_ok_def g3_def)
  qed
qed

lemma buildNodesAndEdges_ok: "graph_ok g \<Longrightarrow> graph_ok (buildNodesAndEdges segments g)"
  by (induction segments arbitrary: g) (simp_all add: addSegment_ok)

subsection \<open>The sorter keeps the graph well formed; the twin search\<close>

lemma sortOutgoingByAngle_fields:
  "m_edges (sortOutgoingByAngle g) = m_edges g"
  "m_nodeIndex (sortOutgoingByAngle g) = m_nodeIndex g"
  "m_rooms (sortOutgoingByAngle g) = m_rooms g"
  "m_snapSize (sortOutgoingByAngle g) = m_snapSize g"
  "length (m_nodes (sortOutgoingByAngle g)) = length (m_nodes g)"
  by (simp_all add: sortOutgoingByAngle_def)

text \<open>
  Of the sorter the proofs use only that it permutes each outgoing list; they hold
  for every order among edges of equal angle.
\<close>

lemma sortOutgoingByAngle_node:
  assumes "n < length (m_nodes g)"
  shows "set (outgoingEdges (m_nodes (sortOutgoingByAngle g) ! n)) = set (outgoingEdges (m_nodes g ! n))"
    and "distinct (outgoingEdges (m_nodes (sortOutgoingByAngle g) ! n)) = distinct (outgoingEdges (m_nodes g ! n))"
    and "pos (m_nodes (sortOutgoingByAngle g) ! n) = pos (m_nodes g ! n)"
  using assms by (simp_all add: sortOutgoingByAngle_def)

lemma sortOutgoingByAngle_ok:
  assumes "graph_ok g"
  shows "graph_ok (sortOutgoingByAngle g)"
proof -
  have "registry_ok (sortOutgoingByAngle g)"
    using assms by (simp add: graph_ok_def registry_ok_def sortOutgoingByAngle_fields)
  moreover have "edge_ok (sortOutgoingByAngle g) i" if "i < length (m_edges g)" for i
    using assms that by (simp add: graph_ok_def edge_ok_def sortOutgoingByAngle_fields)
  moreover have "out_ok (sortOutgoingByAngle g)"
    using assms
    by (simp add: graph_ok_def out_ok_def sortOutgoingByAngle_fields sortOutgoingByAngle_node)
  ultimately show ?thesis using assms by (simp add: graph_ok_def sortOutgoingByAngle_fields)
qed

lemma findPos_notin: "t \<notin> set xs \<Longrightarrow> findPos xs t k = - 1"
  by (induction xs arbitrary: k) auto

lemma findPos_in:
  "t \<in> set xs \<Longrightarrow>
   \<exists>p < length xs. findPos xs t k = int (k + p) \<and> xs ! p = t \<and> (\<forall>q < p. xs ! q \<noteq> t)"
proof (induction xs arbitrary: k)
  case Nil
  then show ?case by simp
next
  case (Cons x xs)
  show ?case
  proof (cases "x = t")
    case True
    then show ?thesis by (intro exI [of _ 0]) simp
  next
    case False
    with Cons.prems have "t \<in> set xs" by simp
    from Cons.IH [OF this, of "Suc k"] obtain p where
      p: "p < length xs" "findPos xs t (Suc k) = int (Suc k + p)" "xs ! p = t" "\<forall>q < p. xs ! q \<noteq> t"
      by blast
    show ?thesis
    proof (intro exI [of _ "Suc p"] conjI allI impI)
      fix q assume "q < Suc p"
      then show "(x # xs) ! q \<noteq> t" using False p(4) by (cases q) auto
    qed (use False p in simp_all)
  qed
qed

lemma findPos_first:
  assumes "p < length xs" and "xs ! p = t" and "\<forall>q < p. xs ! q \<noteq> t"
  shows "findPos xs t k = int (k + p)"
proof -
  have "t \<in> set xs" using assms(1,2) by auto
  from findPos_in [OF this, of k] obtain p' where
    p': "p' < length xs" "findPos xs t k = int (k + p')" "xs ! p' = t" "\<forall>q < p'. xs ! q \<noteq> t"
    by blast
  have "\<not> p' < p" using assms(3) p'(3) by auto
  moreover have "\<not> p < p'" using p'(4) assms(2) by auto
  ultimately have "p' = p" by simp
  with p' show ?thesis by simp
qed

lemma nextPos_nat:
  assumes "p < n"
  shows "nat ((int p - 1 + int n) mod int n) = (p + n - 1) mod n"
proof -
  have "int p - 1 + int n = int (p + n - 1)" using assms by simp
  then show ?thesis by (simp add: zmod_int [symmetric] del: of_nat_add of_nat_diff)
qed

lemma nextPos_cases:
  assumes "(p::nat) < n"
  shows "(p + n - 1) mod n = (if p = 0 then n - 1 else p - 1)"
proof (cases "p = 0")
  case True
  then have "(p + n - 1) mod n = (n - 1) mod n" by simp
  also have "\<dots> = n - 1" using assms by simp
  finally show ?thesis using True by simp
next
  case False
  then have "p + n - 1 = (p - 1) + n" by simp
  then have "(p + n - 1) mod n = (p - 1) mod n" by (simp only: mod_add_self2)
  also have "\<dots> = p - 1" using assms by simp
  finally show ?thesis using False by simp
qed

lemma nextPos_inj:
  assumes "(p1::nat) < n" and "p2 < n" and "(p1 + n - 1) mod n = (p2 + n - 1) mod n"
  shows "p1 = p2"
proof -
  have "(if p1 = 0 then n - 1 else p1 - 1) = (if p2 = 0 then n - 1 else p2 - 1)"
    using assms by (simp only: nextPos_cases)
  then show ?thesis using assms(1,2) by (auto split: if_splits)
qed

lemma relink_found:
  assumes "0 \<le> e_to e" and "e_to e < int (length nodes)"
    and "p < length (outgoingEdges (nodes ! nat (e_to e)))"
    and "outgoingEdges (nodes ! nat (e_to e)) ! p = e_twin e"
    and "\<forall>q < p. outgoingEdges (nodes ! nat (e_to e)) ! q \<noteq> e_twin e"
  shows "relink nodes e =
         e\<lparr>e_next := outgoingEdges (nodes ! nat (e_to e))
                        ! ((p + length (outgoingEdges (nodes ! nat (e_to e))) - 1)
                             mod length (outgoingEdges (nodes ! nat (e_to e))))\<rparr>"
proof -
  define out where "out = outgoingEdges (nodes ! nat (e_to e))"
  have fp: "findPos out (e_twin e) 0 = int p"
    using findPos_first [of p out "e_twin e" 0] assms(3-5) by (simp add: out_def)
  have ne: "out \<noteq> []" using assms(3) by (auto simp: out_def)
  have "relink nodes e = e\<lparr>e_next := out ! nat ((int p - 1 + int (length out)) mod int (length out))\<rparr>"
    using assms(1,2) ne fp by (simp add: relink_def Let_def out_def [symmetric])
  then show ?thesis
    using nextPos_nat [of p "length out"] assms(3) by (simp add: out_def)
qed

lemma relink_not_found:
  assumes "e_twin e \<notin> set (outgoingEdges (nodes ! nat (e_to e)))"
  shows "relink nodes e = e"
  using assms findPos_notin [of "e_twin e" "outgoingEdges (nodes ! nat (e_to e))" 0]
  by (simp add: relink_def Let_def)

lemma relink_bad_to:
  assumes "e_to e < 0 \<or> int (length nodes) \<le> e_to e"
  shows "relink nodes e = e"
  using assms by (auto simp: relink_def Let_def)

subsection \<open>The next relation of a well-formed graph\<close>

lemma buildNextRelations_fields:
  "m_nodes (buildNextRelations g) = m_nodes g"
  "m_nodeIndex (buildNextRelations g) = m_nodeIndex g"
  "m_rooms (buildNextRelations g) = m_rooms g"
  "m_snapSize (buildNextRelations g) = m_snapSize g"
  "length (m_edges (buildNextRelations g)) = length (m_edges g)"
  "i < length (m_edges g) \<Longrightarrow> m_edges (buildNextRelations g) ! i = relink (m_nodes g) (m_edges g ! i)"
  by (simp_all add: buildNextRelations_def)

lemma relink_other_fields:
  "e_id (relink nodes e) = e_id e" "e_from (relink nodes e) = e_from e"
  "e_to (relink nodes e) = e_to e" "e_twin (relink nodes e) = e_twin e"
  "e_used (relink nodes e) = e_used e" "e_angle (relink nodes e) = e_angle e"
  by (simp_all add: relink_def Let_def)

lemma nextPos_lt: "(p::nat) < n \<Longrightarrow> (p + n - 1) mod n < n"
  by (rule mod_less_divisor) linarith

text \<open>In a well-formed graph every half-edge finds its twin at its target node.\<close>

lemma relink_graph_ok:
  assumes "graph_ok g" and "i < length (m_edges g)"
  shows "\<exists>p. p < length (outgoingEdges (m_nodes g ! nat (e_to (m_edges g ! i)))) \<and>
             outgoingEdges (m_nodes g ! nat (e_to (m_edges g ! i))) ! p = e_twin (m_edges g ! i) \<and>
             e_next (relink (m_nodes g) (m_edges g ! i))
               = outgoingEdges (m_nodes g ! nat (e_to (m_edges g ! i)))
                   ! ((p + length (outgoingEdges (m_nodes g ! nat (e_to (m_edges g ! i)))) - 1)
                        mod length (outgoingEdges (m_nodes g ! nat (e_to (m_edges g ! i)))))"
proof -
  define e where "e = m_edges g ! i"
  define out where "out = outgoingEdges (m_nodes g ! nat (e_to e))"
  have eo: "edge_ok g i" using assms by (simp add: graph_ok_def)
  then have to: "0 \<le> e_to e" "e_to e < int (length (m_nodes g))"
    and tw: "0 \<le> e_twin e" "nat (e_twin e) < length (m_edges g)"
            "e_from (m_edges g ! nat (e_twin e)) = e_to e"
    by (simp_all add: edge_ok_def Let_def e_def)
  have "nat (e_to e) < length (m_nodes g)" using to by simp
  then have "set out = {x. 0 \<le> x \<and> x < int (length (m_edges g))
                           \<and> e_from (m_edges g ! nat x) = int (nat (e_to e))}"
    using assms(1) by (simp add: graph_ok_def out_ok_def out_def)
  then have "e_twin e \<in> set out" using tw to by simp
  from findPos_in [OF this, of 0] obtain p where
    p: "p < length out" "out ! p = e_twin e" "\<forall>q < p. out ! q \<noteq> e_twin e" by auto
  have "relink (m_nodes g) e = e\<lparr>e_next := out ! ((p + length out - 1) mod length out)\<rparr>"
    using relink_found [OF to, of p] p by (simp add: out_def)
  then show ?thesis using p by (intro exI [of _ p]) (simp add: e_def out_def)
qed

text \<open>
  After \<^verbatim>\<open>buildNextRelations\<close> on a well-formed graph, the next edge of \<open>e\<close> is set: it
  leaves the target of \<open>e\<close>, hence differs from \<open>e\<close>. It is injective: two edges with
  the same next edge have the same target, their twins sit at the same position of
  its duplicate-free outgoing list, and an edge is the twin of its twin.
\<close>

lemma buildNextRelations_next_ok:
  assumes "graph_ok g"
  shows "next_ok (buildNextRelations g)"
proof -
  define E where "E = m_edges g"
  define N where "N = m_nodes g"
  define out where "out i = outgoingEdges (N ! nat (e_to (E ! i)))" for i
  define nx where "nx i = e_next (relink N (E ! i))" for i
  have eo: "edge_ok g i" if "i < length E" for i
    using assms that by (simp add: graph_ok_def E_def)
  have outset: "set (out i) = {x. 0 \<le> x \<and> x < int (length E) \<and> e_from (E ! nat x) = e_to (E ! i)}"
    and outdist: "distinct (out i)" if i: "i < length E" for i
  proof -
    have "0 \<le> e_to (E ! i)" "e_to (E ! i) < int (length N)"
      using eo [OF i] by (simp_all add: edge_ok_def Let_def E_def N_def)
    then have "0 \<le> e_to (E ! i)" "nat (e_to (E ! i)) < length N" by linarith+
    then show "set (out i) = {x. 0 \<le> x \<and> x < int (length E) \<and> e_from (E ! nat x) = e_to (E ! i)}"
      and "distinct (out i)"
      using assms by (simp_all add: graph_ok_def out_ok_def out_def E_def N_def)
  qed
  have pos: "\<exists>p. p < length (out i) \<and> out i ! p = e_twin (E ! i) \<and>
                 nx i = out i ! ((p + length (out i) - 1) mod length (out i))"
    if i: "i < length E" for i
    using relink_graph_ok [OF assms, of i] i by (simp add: E_def N_def out_def nx_def)
  have nx_in: "nx i \<in> set (out i)" if i: "i < length E" for i
  proof -
    from pos [OF i] obtain p where p: "p < length (out i)"
      "nx i = out i ! ((p + length (out i) - 1) mod length (out i))" by blast
    from p(1) have "(p + length (out i) - 1) mod length (out i) < length (out i)"
      by (rule nextPos_lt)
    then show ?thesis using p(2) by simp
  qed
  have part1: "e_id (relink N (E ! i)) = int i \<and>
        0 \<le> e_from (relink N (E ! i)) \<and> e_from (relink N (E ! i)) < int (length N) \<and>
        0 \<le> nx i \<and> nx i < int (length E) \<and> nx i \<noteq> int i" if i: "i < length E" for i
  proof -
    have a: "e_id (E ! i) = int i" "0 \<le> e_from (E ! i)" "e_from (E ! i) < int (length N)"
      "e_from (E ! i) \<noteq> e_to (E ! i)"
      using eo [OF i] by (simp_all add: edge_ok_def Let_def E_def N_def)
    have "0 \<le> nx i \<and> nx i < int (length E) \<and> e_from (E ! nat (nx i)) = e_to (E ! i)"
      using nx_in [OF i] outset [OF i] by simp
    moreover from this a(4) have "nx i \<noteq> int i" by auto
    ultimately show ?thesis using a by (simp add: relink_other_fields)
  qed
  have part2: "i = j" if i: "i < length E" and j: "j < length E" and eq: "nx i = nx j" for i j
  proof -
    have "e_from (E ! nat (nx i)) = e_to (E ! i)" "e_from (E ! nat (nx j)) = e_to (E ! j)"
      using nx_in [OF i] nx_in [OF j] outset [OF i] outset [OF j] by simp_all
    then have same: "out i = out j" using eq by (simp add: out_def)
    from pos [OF i] obtain p where p: "p < length (out i)" "out i ! p = e_twin (E ! i)"
      "nx i = out i ! ((p + length (out i) - 1) mod length (out i))" by blast
    from pos [OF j] obtain q where q: "q < length (out i)" "out i ! q = e_twin (E ! j)"
      "nx j = out i ! ((q + length (out i) - 1) mod length (out i))" using same by auto
    have "(p + length (out i) - 1) mod length (out i) < length (out i)"
      "(q + length (out i) - 1) mod length (out i) < length (out i)"
      by (rule nextPos_lt [OF p(1)], rule nextPos_lt [OF q(1)])
    then have "(p + length (out i) - 1) mod length (out i) = (q + length (out i) - 1) mod length (out i)"
      using eq p(3) q(3) nth_eq_iff_index_eq [OF outdist [OF i]] by simp
    then have "p = q" using p(1) q(1) by (rule nextPos_inj [rotated 2])
    then have tw: "e_twin (E ! i) = e_twin (E ! j)" using p(2) q(2) by simp
    have ti: "e_twin (E ! nat (e_twin (E ! i))) = int i"
      using eo [OF i] by (simp add: edge_ok_def Let_def E_def)
    have tj: "e_twin (E ! nat (e_twin (E ! j))) = int j"
      using eo [OF j] by (simp add: edge_ok_def Let_def E_def)
    have "int i = e_twin (E ! nat (e_twin (E ! j)))"
      by (simp only: ti [symmetric] tw)
    then have "int i = int j" by (simp only: tj)
    then show ?thesis by simp
  qed
  show ?thesis
    unfolding next_ok_def edges_wf_def
    using part1 part2
    by (simp add: buildNextRelations_fields E_def [symmetric] N_def [symmetric] nx_def)
qed

subsection \<open>Counting half-edges and outgoing entries\<close>

lemma findOrCreateNode_total:
  "findOrCreateNode p g = (a, g') \<Longrightarrow> outgoing_total g' = outgoing_total g"
  by (drule findOrCreateNode_cases) (auto simp: outgoing_total_def)

lemma push_outgoing_total:
  assumes "0 \<le> a" and "a < int (length nodes)"
  shows "sum_list (map (\<lambda>node. length (outgoingEdges node)) (push_outgoing a e nodes))
         = Suc (sum_list (map (\<lambda>node. length (outgoingEdges node)) nodes))"
proof -
  have a: "nat a < length nodes" using assms by simp
  have "map (\<lambda>node. length (outgoingEdges node)) (push_outgoing a e nodes)
        = (map (\<lambda>node. length (outgoingEdges node)) nodes)
            [nat a := Suc (length (outgoingEdges (nodes ! nat a)))]"
    by (simp add: push_outgoing_def map_update)
  then show ?thesis
    using a sum_list_update [of "nat a" "map (\<lambda>node. length (outgoingEdges node)) nodes"
                                "Suc (length (outgoingEdges (nodes ! nat a)))"]
    by simp
qed

lemma addSegment_counts:
  assumes "graph_ok g"
  shows "length (m_edges (addSegment s g))
           = length (m_edges g) + 2 * length (accepted [s] g)"
    and "outgoing_total (addSegment s g) = outgoing_total g + 2 * length (accepted [s] g)"
proof -
  obtain a g1 where f1: "findOrCreateNode (seg_a s) g = (a, g1)" by (cases "findOrCreateNode (seg_a s) g")
  obtain b g2 where f2: "findOrCreateNode (seg_b s) g1 = (b, g2)" by (cases "findOrCreateNode (seg_b s) g1")
  have r: "resolve2 (seg_a s) (seg_b s) g = (a, b)" by (simp add: resolve2_def f1 f2)
  have ok1: "graph_ok g1" using findOrCreateNode_ok [OF f1 assms] .
  have a1: "0 \<le> a \<and> a < int (length (m_nodes g1))"
    using findOrCreateNode_range(1) [OF f1] assms by (simp add: graph_ok_def)
  have b2: "0 \<le> b" "b < int (length (m_nodes g2))"
    using findOrCreateNode_range(1) [OF f2] ok1 by (simp_all add: graph_ok_def)
  have a2: "0 \<le> a" "a < int (length (m_nodes g2))"
    using a1 findOrCreateNode_nodes(1) [OF f2] by simp_all
  have e: "m_edges g2 = m_edges g"
    using findOrCreateNode_edges [OF f1] findOrCreateNode_edges [OF f2] by simp
  have t: "outgoing_total g2 = outgoing_total g"
    using findOrCreateNode_total [OF f1] findOrCreateNode_total [OF f2] by simp
  show "length (m_edges (addSegment s g)) = length (m_edges g) + 2 * length (accepted [s] g)"
    by (simp add: addSegment_unfold [OF f1 f2] r e)
  show "outgoing_total (addSegment s g) = outgoing_total g + 2 * length (accepted [s] g)"
    using t a2 b2 push_outgoing_props(1) [OF a2]
    by (simp add: addSegment_unfold [OF f1 f2] r outgoing_total_def push_outgoing_total)
qed

lemma buildNodesAndEdges_counts:
  "graph_ok g \<Longrightarrow>
   length (m_edges (buildNodesAndEdges segments g))
     = length (m_edges g) + 2 * length (accepted segments g) \<and>
   outgoing_total (buildNodesAndEdges segments g)
     = outgoing_total g + 2 * length (accepted segments g)"
proof (induction segments arbitrary: g)
  case Nil
  then show ?case by simp
next
  case (Cons s segments)
  from Cons.IH [OF addSegment_ok [OF Cons.prems], of s] addSegment_counts [OF Cons.prems, of s]
  show ?case by simp
qed

lemma graph_ok_sorted: "graph_ok (sortOutgoingByAngle (buildNodesAndEdges segments (clear g)))"
  by (intro sortOutgoingByAngle_ok buildNodesAndEdges_ok graph_ok_clear)

lemma next_ok_buildGraph: "next_ok (buildGraph segments g)"
  unfolding buildGraph_def by (intro buildNextRelations_next_ok graph_ok_sorted)

subsection \<open>One iteration of a walk\<close>

lemma next_ok_edges_wf: "next_ok g \<longleftrightarrow> edges_wf (length (m_nodes g)) (m_edges g)"
  by (simp add: next_ok_def)

lemma walk_closed_step:
  assumes "c < length E" and "\<not> e_used (E ! c)"
    and "0 \<le> e_from (E ! c)" and "e_from (E ! c) < int (length N)"
    and "0 \<le> e_next (E ! c)" and "e_next (E ! c) = startId"
  shows "walk N startId (int c) E poly k
         = Inr (mark E c, poly @ [pos (N ! nat (e_from (E ! c)))], Closed, Suc k)"
  using assms by (subst walk.simps) (simp add: Let_def)

lemma walk_continue_step:
  assumes "c < length E" and "\<not> e_used (E ! c)"
    and "0 \<le> e_from (E ! c)" and "e_from (E ! c) < int (length N)"
    and "0 \<le> e_next (E ! c)" and "e_next (E ! c) \<noteq> startId"
  shows "walk N startId (int c) E poly k
         = walk N startId (e_next (E ! c)) (mark E c) (poly @ [pos (N ! nat (e_from (E ! c)))]) (Suc k)"
  using assms by (subst walk.simps) (simp add: Let_def)

lemma used_set_mark: "c < length E \<Longrightarrow> used_set (mark E c) = insert c (used_set E)"
  by (auto simp: used_set_def nth_list_update)

lemma nxt_mark: "nxt (mark E c) i = nxt E i"
  by (cases "c < length E") (simp_all add: nxt_def nth_list_update list_update_beyond)

lemma unmark_mark: "map unmark (mark E c) = map unmark E"
  by (cases "c < length E")
     (simp_all add: list_eq_iff_nth_eq nth_list_update unmark_def list_update_beyond)

lemma unmark_fields:
  assumes "map unmark E' = map unmark E"
  shows "length E' = length E"
    and "i < length E \<Longrightarrow> e_id (E' ! i) = e_id (E ! i)"
    and "i < length E \<Longrightarrow> e_from (E' ! i) = e_from (E ! i)"
    and "i < length E \<Longrightarrow> e_to (E' ! i) = e_to (E ! i)"
    and "i < length E \<Longrightarrow> e_twin (E' ! i) = e_twin (E ! i)"
    and "i < length E \<Longrightarrow> e_next (E' ! i) = e_next (E ! i)"
    and "i < length E \<Longrightarrow> e_angle (E' ! i) = e_angle (E ! i)"
proof -
  show len: "length E' = length E" using assms by (rule map_eq_imp_length_eq)
  have u: "unmark (E' ! i) = unmark (E ! i)" if "i < length E" for i
    using assms that len by (metis nth_map)
  have f: "e_id (unmark e) = e_id e" "e_from (unmark e) = e_from e" "e_to (unmark e) = e_to e"
    "e_twin (unmark e) = e_twin e" "e_next (unmark e) = e_next e" "e_angle (unmark e) = e_angle e" for e
    by (simp_all add: unmark_def)
  show "i < length E \<Longrightarrow> e_id (E' ! i) = e_id (E ! i)" using u f(1) by metis
  show "i < length E \<Longrightarrow> e_from (E' ! i) = e_from (E ! i)" using u f(2) by metis
  show "i < length E \<Longrightarrow> e_to (E' ! i) = e_to (E ! i)" using u f(3) by metis
  show "i < length E \<Longrightarrow> e_twin (E' ! i) = e_twin (E ! i)" using u f(4) by metis
  show "i < length E \<Longrightarrow> e_next (E' ! i) = e_next (E ! i)" using u f(5) by metis
  show "i < length E \<Longrightarrow> e_angle (E' ! i) = e_angle (E ! i)" using u f(6) by metis
qed

lemma edges_wf_unmark:
  assumes "map unmark E' = map unmark E"
  shows "edges_wf nn E' = edges_wf nn E"
  using unmark_fields [OF assms] by (simp add: edges_wf_def)

lemma nxt_unmark:
  assumes "map unmark E' = map unmark E" and "i < length E"
  shows "nxt E' i = nxt E i"
  using unmark_fields(6) [OF assms] by (simp add: nxt_def)

subsection \<open>A walk over an injective next relation closes\<close>

text \<open>
  The invariant of the inner loop, for a walk that started at \<open>s\<close> and stands at the
  unused edge \<open>c\<close>. \<open>U0\<close> are the edges used before the walk began, a set closed
  under the next relation in both directions. Every edge the walk has marked is \<open>s\<close>
  or the next edge of a marked one, and its next edge is marked or is \<open>c\<close>. Then the
  next edge of \<open>c\<close> is \<open>s\<close>, or it is unused: it is not in \<open>U0\<close>, which would contain
  \<open>c\<close>; and it is not among the marked edges, each of which is \<open>s\<close> or already has a
  marked predecessor, while the next relation is injective. The walk therefore ends
  by closing, and leaves the set of used edges closed under the next relation.
\<close>

lemma walk_closes:
  assumes "edges_wf (length N) E"
    and "c < length E" and "\<not> e_used (E ! c)"
    and "U0 \<subseteq> used_set E"
    and "\<forall>i \<in> U0. nxt E i \<in> U0"
    and "\<forall>i < length E. nxt E i \<in> U0 \<longrightarrow> i \<in> U0"
    and "\<forall>j \<in> used_set E - U0. j = s \<or> (\<exists>j' \<in> used_set E - U0. nxt E j' = j)"
    and "\<forall>j \<in> used_set E - U0. nxt E j \<in> used_set E \<or> nxt E j = c"
    and "(c = s \<and> used_set E = U0) \<or> (s \<in> used_set E \<and> (\<exists>j' \<in> used_set E - U0. nxt E j' = c))"
  shows "\<exists>E' poly' k'.
           walk N (int s) (int c) E poly k = Inr (E', poly', Closed, k') \<and>
           map unmark E' = map unmark E \<and>
           k' + unused_count E' = k + unused_count E \<and>
           (\<forall>i \<in> used_set E'. nxt E i \<in> used_set E') \<and>
           used_set E \<subseteq> used_set E'"
  using assms
proof (induction "unused_count E" arbitrary: E c poly k rule: less_induct)
  case less
  note wf = less.prems(1) and c = less.prems(2,3) and U0 = less.prems(4,5,6)
    and A4 = less.prems(7) and A5 = less.prems(8) and A6 = less.prems(9)
  define E1 where "E1 = mark E c"
  define poly1 where "poly1 = poly @ [pos (N ! nat (e_from (E ! c)))]"
  have st: "0 \<le> e_from (E ! c)" "e_from (E ! c) < int (length N)"
    "0 \<le> e_next (E ! c)" "e_next (E ! c) < int (length E)" "e_next (E ! c) \<noteq> int c"
    using wf c(1) by (simp_all add: edges_wf_def)
  have inj: "i = j" if "i < length E" "j < length E" "nxt E i = nxt E j" for i j
  proof -
    have "0 \<le> e_next (E ! i)" "0 \<le> e_next (E ! j)" using wf that(1,2) by (simp_all add: edges_wf_def)
    then have "e_next (E ! i) = e_next (E ! j)" using that(3) by (simp add: nxt_def)
    then show ?thesis using wf that(1,2) by (simp add: edges_wf_def)
  qed
  have nc: "e_next (E ! c) = int (nxt E c)" using st(3) by (simp add: nxt_def)
  have nlt: "nxt E c < length E" using st(3,4) by (simp add: nxt_def)
  have used1: "used_set E1 = insert c (used_set E)" using c(1) by (simp add: E1_def used_set_mark)
  have cnt1: "Suc (unused_count E1) = unused_count E"
    using unused_count_mark [OF c] by (simp add: E1_def)
  have un1: "map unmark E1 = map unmark E" by (simp add: E1_def unmark_mark)
  have cU: "c \<notin> used_set E" using c(2) by (simp add: used_set_def)
  then have cU0: "c \<notin> U0" using U0(1) by auto
  have fwd1: "nxt E j \<in> used_set E1" if "j \<in> used_set E" for j
  proof (cases "j \<in> U0")
    case True
    then show ?thesis using U0(1,2) used1 by auto
  next
    case False
    then show ?thesis using A5 that used1 by auto
  qed
  show ?case
  proof (cases "nxt E c = s")
    case True
    then have "e_next (E ! c) = int s" using nc by simp
    then have w: "walk N (int s) (int c) E poly k = Inr (E1, poly1, Closed, Suc k)"
      using walk_closed_step [OF c st(1,2,3)] by (simp add: E1_def poly1_def)
    have "s \<in> used_set E1" using A6 used1 by auto
    then have "\<forall>i \<in> used_set E1. nxt E i \<in> used_set E1"
      using fwd1 True used1 by auto
    then show ?thesis
      using w un1 cnt1 used1 by auto
  next
    case False
    then have ne: "e_next (E ! c) \<noteq> int s" using nc by simp
    define c' where "c' = nxt E c"
    have w: "walk N (int s) (int c) E poly k = walk N (int s) (int c') E1 poly1 (Suc k)"
      using walk_continue_step [OF c st(1,2,3) ne] nc by (simp add: E1_def poly1_def c'_def)
    have c'_len: "c' < length E1" using nlt by (simp add: c'_def E1_def)
    have c'_ne: "c' \<noteq> c" using st(5) nc by (simp add: c'_def)
    have c'_U0: "c' \<notin> U0" using U0(3) c(1) cU0 by (auto simp: c'_def)
    have c'_new: "c' \<notin> used_set E - U0"
    proof
      assume a: "c' \<in> used_set E - U0"
      from A4 a have "c' = s \<or> (\<exists>j' \<in> used_set E - U0. nxt E j' = c')" by blast
      then show False
      proof
        assume "c' = s" then show False using False by (simp add: c'_def)
      next
        assume "\<exists>j' \<in> used_set E - U0. nxt E j' = c'"
        then obtain j' where j': "j' \<in> used_set E" "nxt E j' = nxt E c" by (auto simp: c'_def)
        then have "j' < length E" by (simp add: used_set_def)
        then have "j' = c" using inj [of j' c] c(1) j'(2) by simp
        then show False using j'(1) cU by simp
      qed
    qed
    have c'_unused: "\<not> e_used (E1 ! c')"
    proof -
      have "c' \<notin> used_set E1" using used1 c'_ne c'_U0 c'_new by auto
      then show ?thesis using c'_len by (simp add: used_set_def)
    qed
    have nx1: "nxt E1 = nxt E" by (rule ext) (simp add: E1_def nxt_mark)
    have len1: "length E1 = length E" by (simp add: E1_def)
    have P1: "edges_wf (length N) E1" using wf edges_wf_unmark [OF un1] by simp
    have P4: "U0 \<subseteq> used_set E1" using U0(1) used1 by auto
    have P5: "\<forall>i \<in> U0. nxt E1 i \<in> U0" using U0(2) nx1 by simp
    have P6: "\<forall>i < length E1. nxt E1 i \<in> U0 \<longrightarrow> i \<in> U0" using U0(3) nx1 len1 by simp
    have P7: "\<forall>j \<in> used_set E1 - U0. j = s \<or> (\<exists>j' \<in> used_set E1 - U0. nxt E1 j' = j)"
    proof
      fix j assume j: "j \<in> used_set E1 - U0"
      show "j = s \<or> (\<exists>j' \<in> used_set E1 - U0. nxt E1 j' = j)"
      proof (cases "j = c")
        case True
        then show ?thesis using A6 used1 nx1 by auto
      next
        case False
        then have "j \<in> used_set E - U0" using j used1 by auto
        then show ?thesis using A4 used1 nx1 by auto
      qed
    qed
    have P8: "\<forall>j \<in> used_set E1 - U0. nxt E1 j \<in> used_set E1 \<or> nxt E1 j = c'"
    proof
      fix j assume j: "j \<in> used_set E1 - U0"
      show "nxt E1 j \<in> used_set E1 \<or> nxt E1 j = c'"
      proof (cases "j = c")
        case True
        then show ?thesis by (simp add: nx1 c'_def)
      next
        case False
        then have "j \<in> used_set E" using j used1 by auto
        then show ?thesis using fwd1 nx1 by simp
      qed
    qed
    have "s \<in> used_set E1" using A6 used1 by auto
    moreover have "c \<in> used_set E1 - U0" using used1 cU0 by simp
    ultimately have P9: "(c' = s \<and> used_set E1 = U0) \<or>
        (s \<in> used_set E1 \<and> (\<exists>j' \<in> used_set E1 - U0. nxt E1 j' = c'))"
      using nx1 c'_def by auto
    have "unused_count E1 < unused_count E" using cnt1 by simp
    from less.hyps [OF this P1 c'_len c'_unused P4 P5 P6 P7 P8 P9, of poly1 "Suc k"]
    obtain E' poly' k' where r:
      "walk N (int s) (int c') E1 poly1 (Suc k) = Inr (E', poly', Closed, k')"
      "map unmark E' = map unmark E1"
      "k' + unused_count E' = Suc k + unused_count E1"
      "\<forall>i \<in> used_set E'. nxt E1 i \<in> used_set E'"
      "used_set E1 \<subseteq> used_set E'"
      by blast
    show ?thesis
      using w r un1 cnt1 used1 nx1 by auto
  qed
qed

subsection \<open>The outer loop of the cycle walker\<close>

text \<open>
  An injective map of a finite set into itself is onto: a set of used edges that is
  closed under the next relation contains every edge whose next edge it contains.
\<close>

lemma closed_backward:
  assumes wf: "edges_wf nn E" and fwd: "\<forall>i \<in> used_set E. nxt E i \<in> used_set E"
  shows "\<forall>i < length E. nxt E i \<in> used_set E \<longrightarrow> i \<in> used_set E"
proof (intro allI impI)
  fix i assume i: "i < length E" and ni: "nxt E i \<in> used_set E"
  have inj: "a = b" if "a < length E" "b < length E" "nxt E a = nxt E b" for a b
  proof -
    have "0 \<le> e_next (E ! a)" "0 \<le> e_next (E ! b)" using wf that(1,2) by (simp_all add: edges_wf_def)
    then have "e_next (E ! a) = e_next (E ! b)" using that(3) by (simp add: nxt_def)
    then show ?thesis using wf that(1,2) by (simp add: edges_wf_def)
  qed
  have fin: "finite (used_set E)" by (simp add: used_set_def)
  have sub: "nxt E ` used_set E \<subseteq> used_set E" using fwd by auto
  have "inj_on (nxt E) (used_set E)"
    by (rule inj_onI) (auto intro: inj simp: used_set_def)
  from endo_inj_surj [OF fin sub this] have "nxt E ` used_set E = used_set E" .
  with ni obtain u where u: "u \<in> used_set E" "nxt E u = nxt E i" by (metis imageE)
  then have "u < length E" by (simp add: used_set_def)
  then have "u = i" using inj [of u i] i u(2) by simp
  then show "i \<in> used_set E" using u(1) by simp
qed

lemma walkCycle_closes:
  assumes wf: "edges_wf (length (m_nodes g)) (m_edges g)"
    and i: "i < length (m_edges g)"
    and fwd: "\<forall>j \<in> used_set (m_edges g). nxt (m_edges g) j \<in> used_set (m_edges g)"
  shows "\<exists>g' entries.
           walkCycle i g = Inr (g', entries) \<and>
           m_nodes g' = m_nodes g \<and> m_snapSize g' = m_snapSize g \<and>
           map unmark (m_edges g') = map unmark (m_edges g) \<and>
           (\<forall>w \<in> set entries. w_exit w = Closed) \<and>
           sum_list (map w_iters entries) + unused_count (m_edges g') = unused_count (m_edges g) \<and>
           (\<forall>j \<in> used_set (m_edges g'). nxt (m_edges g') j \<in> used_set (m_edges g'))"
proof (cases "e_used (m_edges g ! i)")
  case True
  then show ?thesis using fwd by (simp add: walkCycle_def)
next
  case False
  define E where "E = m_edges g"
  have id: "e_id (E ! i) = int i" using wf i by (simp add: edges_wf_def E_def)
  have bwd: "\<forall>j < length E. nxt E j \<in> used_set E \<longrightarrow> j \<in> used_set E"
    using closed_backward [OF wf fwd] by (simp add: E_def)
  have "\<exists>E' poly' k'.
           walk (m_nodes g) (int i) (int i) E [] 0 = Inr (E', poly', Closed, k') \<and>
           map unmark E' = map unmark E \<and>
           k' + unused_count E' = 0 + unused_count E \<and>
           (\<forall>j \<in> used_set E'. nxt E j \<in> used_set E') \<and>
           used_set E \<subseteq> used_set E'"
    using wf i False fwd bwd
    by (intro walk_closes [where ?U0.0 = "used_set E"]) (simp_all add: E_def)
  then obtain E' poly' k' where r:
    "walk (m_nodes g) (int i) (int i) E [] 0 = Inr (E', poly', Closed, k')"
    "map unmark E' = map unmark E" "k' + unused_count E' = unused_count E"
    "\<forall>j \<in> used_set E'. nxt E j \<in> used_set E'"
    by auto
  have "nxt E' j = nxt E j" if "j \<in> used_set E'" for j
  proof -
    have "j < length E" using that unmark_fields(1) [OF r(2)] by (simp add: used_set_def)
    then show ?thesis using nxt_unmark [OF r(2)] by simp
  qed
  then have fwd': "\<forall>j \<in> used_set E'. nxt E' j \<in> used_set E'" using r(4) by simp
  show ?thesis
    using False id r(1,2,3) fwd'
    by (simp add: walkCycle_def Let_def E_def [symmetric])
qed

lemma walkCycles_loop_closes:
  assumes "edges_wf (length (m_nodes g)) (m_edges g)"
    and "\<forall>i \<in> set is. i < length (m_edges g)"
    and "\<forall>j \<in> used_set (m_edges g). nxt (m_edges g) j \<in> used_set (m_edges g)"
  shows "\<exists>g' tr.
           walkCycles_loop is g trace = Inr (g', trace @ tr) \<and>
           m_nodes g' = m_nodes g \<and> m_snapSize g' = m_snapSize g \<and>
           map unmark (m_edges g') = map unmark (m_edges g) \<and>
           (\<forall>w \<in> set tr. w_exit w = Closed) \<and>
           sum_list (map w_iters tr) + unused_count (m_edges g') = unused_count (m_edges g)"
  using assms
proof (induction "is" arbitrary: g trace)
  case Nil
  then show ?case by simp
next
  case (Cons i "is")
  from walkCycle_closes [OF Cons.prems(1) _ Cons.prems(3), of i] Cons.prems(2)
  obtain g1 entries where s:
    "walkCycle i g = Inr (g1, entries)"
    "m_nodes g1 = m_nodes g" "m_snapSize g1 = m_snapSize g"
    "map unmark (m_edges g1) = map unmark (m_edges g)"
    "\<forall>w \<in> set entries. w_exit w = Closed"
    "sum_list (map w_iters entries) + unused_count (m_edges g1) = unused_count (m_edges g)"
    "\<forall>j \<in> used_set (m_edges g1). nxt (m_edges g1) j \<in> used_set (m_edges g1)"
    by auto
  have wf1: "edges_wf (length (m_nodes g1)) (m_edges g1)"
    using Cons.prems(1) edges_wf_unmark [OF s(4)] s(2) by simp
  have len1: "length (m_edges g1) = length (m_edges g)" using unmark_fields(1) [OF s(4)] .
  have is1: "\<forall>i \<in> set is. i < length (m_edges g1)" using Cons.prems(2) len1 by simp
  from Cons.IH [OF wf1 is1 s(7), of "trace @ entries"]
  obtain g' tr where t:
    "walkCycles_loop is g1 (trace @ entries) = Inr (g', (trace @ entries) @ tr)"
    "m_nodes g' = m_nodes g1" "m_snapSize g' = m_snapSize g1"
    "map unmark (m_edges g') = map unmark (m_edges g1)"
    "\<forall>w \<in> set tr. w_exit w = Closed"
    "sum_list (map w_iters tr) + unused_count (m_edges g') = unused_count (m_edges g1)"
    by auto
  show ?case
    using s t by (intro exI [of _ g'] exI [of _ "entries @ tr"]) auto
qed

subsection \<open>The cycle walker on a built graph\<close>

lemma addSegment_unused:
  assumes "\<forall>e \<in> set (m_edges g). \<not> e_used e"
  shows "\<forall>e \<in> set (m_edges (addSegment s g)). \<not> e_used e"
proof -
  obtain a g1 where f1: "findOrCreateNode (seg_a s) g = (a, g1)" by (cases "findOrCreateNode (seg_a s) g")
  obtain b g2 where f2: "findOrCreateNode (seg_b s) g1 = (b, g2)" by (cases "findOrCreateNode (seg_b s) g1")
  have "m_edges g2 = m_edges g"
    using findOrCreateNode_edges [OF f1] findOrCreateNode_edges [OF f2] by simp
  then show ?thesis using assms by (simp add: addSegment_unfold [OF f1 f2])
qed

lemma buildNodesAndEdges_unused:
  "\<forall>e \<in> set (m_edges g). \<not> e_used e \<Longrightarrow>
   \<forall>e \<in> set (m_edges (buildNodesAndEdges segments g)). \<not> e_used e"
proof (induction segments arbitrary: g)
  case Nil
  then show ?case by simp
next
  case (Cons s segments)
  from Cons.IH [OF addSegment_unused [OF Cons.prems]] show ?case by simp
qed

lemma buildGraph_unused:
  assumes "i < length (m_edges (buildGraph segments g))"
  shows "\<not> e_used (m_edges (buildGraph segments g) ! i)"
proof -
  define g0 where "g0 = sortOutgoingByAngle (buildNodesAndEdges segments (clear g))"
  have "\<forall>e \<in> set (m_edges (clear g)). \<not> e_used e" by (simp add: clear_def)
  then have "\<forall>e \<in> set (m_edges g0). \<not> e_used e"
    using buildNodesAndEdges_unused [of "clear g" segments]
    by (simp add: g0_def sortOutgoingByAngle_fields)
  moreover have i: "i < length (m_edges g0)"
    using assms by (simp add: buildGraph_def g0_def buildNextRelations_fields)
  ultimately have "\<not> e_used (m_edges g0 ! i)" by simp
  then show ?thesis
    using i by (simp add: buildGraph_def g0_def [symmetric] buildNextRelations_fields relink_other_fields)
qed

lemma unused_count_all:
  "\<forall>i < length E. \<not> e_used (E ! i) \<Longrightarrow> unused_count E = length E"
proof -
  assume a: "\<forall>i < length E. \<not> e_used (E ! i)"
  have "\<forall>e \<in> set E. \<not> e_used e"
  proof
    fix e assume "e \<in> set E"
    then obtain i where "i < length E" "E ! i = e" by (auto simp: in_set_conv_nth)
    then show "\<not> e_used e" using a by auto
  qed
  then have "filter (\<lambda>e. \<not> e_used e) E = E" by (simp add: filter_id_conv)
  then show ?thesis by (simp add: unused_count_def)
qed

text \<open>
  On a built graph no edge is used at the start. The cycle walker returns; every
  walk closes; every iteration marks an edge.
\<close>

lemma walkCycles_buildGraph:
  "\<exists>g' trace.
     walkCycles (buildGraph segments g) = Inr (g', trace) \<and>
     m_nodes g' = m_nodes (buildGraph segments g) \<and>
     m_snapSize g' = m_snapSize (buildGraph segments g) \<and>
     map unmark (m_edges g') = map unmark (m_edges (buildGraph segments g)) \<and>
     (\<forall>w \<in> set trace. w_exit w = Closed) \<and>
     sum_list (map w_iters trace) + unused_count (m_edges g')
       = length (m_edges (buildGraph segments g))"
proof -
  define G where "G = buildGraph segments g"
  have wf: "edges_wf (length (m_nodes G)) (m_edges G)"
    using next_ok_buildGraph [of segments g] by (simp add: next_ok_edges_wf G_def)
  have un: "\<forall>i < length (m_edges G). \<not> e_used (m_edges G ! i)"
    using buildGraph_unused by (simp add: G_def)
  then have "used_set (m_edges G) = {}" by (auto simp: used_set_def)
  then have fwd: "\<forall>j \<in> used_set (m_edges G). nxt (m_edges G) j \<in> used_set (m_edges G)" by simp
  have "\<forall>i \<in> set [0..<length (m_edges G)]. i < length (m_edges G)" by simp
  from walkCycles_loop_closes [OF wf this fwd, of "[]"] unused_count_all [OF un]
  show ?thesis by (simp add: walkCycles_def G_def [symmetric])
qed

lemma buildGraph_snapSize: "m_snapSize (buildGraph segments g) = m_snapSize g"
proof -
  have a: "m_snapSize (addSegment s h) = m_snapSize h" for s h
  proof -
    obtain a g1 where f1: "findOrCreateNode (seg_a s) h = (a, g1)" by (cases "findOrCreateNode (seg_a s) h")
    obtain b g2 where f2: "findOrCreateNode (seg_b s) g1 = (b, g2)" by (cases "findOrCreateNode (seg_b s) g1")
    show ?thesis
      using findOrCreateNode_edges [OF f1] findOrCreateNode_edges [OF f2]
      by (simp add: addSegment_unfold [OF f1 f2])
  qed
  have "m_snapSize (buildNodesAndEdges segments h) = m_snapSize h" for h
    by (induction segments arbitrary: h) (simp_all add: a)
  then show ?thesis
    by (simp add: buildGraph_def buildNextRelations_fields sortOutgoingByAngle_fields clear_def)
qed

lemma clear_cong: "m_snapSize g' = m_snapSize g \<Longrightarrow> clear g' = clear g"
  by (simp add: clear_def)

lemma build_total:
  "\<exists>g'. build segments g = Inr g' \<and> m_snapSize g' = m_snapSize g"
proof (cases "segments = []")
  case True
  then show ?thesis by (simp add: build_def clear_def)
next
  case False
  from walkCycles_buildGraph [of segments g] obtain g' trace where
    "walkCycles (buildGraph segments g) = Inr (g', trace)"
    "m_snapSize g' = m_snapSize (buildGraph segments g)" by blast
  then show ?thesis using False by (simp add: build_def buildGraph_snapSize)
qed

subsection \<open>Evaluating the build on concrete inputs\<close>

lemmas build_defs = buildGraph_def clear_def RoomGraph_new_def addSegment_def findOrCreateNode_def gridKey_def Let_def push_outgoing_def atan2_def sortOutgoingByAngle_def buildNextRelations_def relink_def

lemma angle_order:
  "\<not> pi \<le> 0" "- (pi / 2) \<le> pi" "\<not> pi \<le> - (pi / 2)" "\<not> pi \<le> pi / 2" "pi / 2 \<le> pi"
  "\<not> pi / 2 \<le> - (pi / 2)" "- (pi / 2) \<le> pi / 2" "\<not> 0 \<le> - (pi / 2)" "- (pi / 2) \<le> 0"
  "\<not> pi / 2 \<le> 0" "0 \<le> pi / 2"
  using pi_gt_zero by linarith+

lemmas eval_defs = build_def build_defs walkCycles_def walkCycle_def
  upt_conv_Cons walk.simps getRooms_def angle_order square_eval

subsection \<open>Rooms pass the filters\<close>

lemma walkCycle_rooms:
  assumes "walkCycle i g = Inr (g', entries)" and "\<forall>r \<in> set (m_rooms g). room_ok r"
  shows "\<forall>r \<in> set (m_rooms g'). room_ok r"
  using assms
  by (auto simp: walkCycle_def Let_def room_ok_def split: if_splits sum.splits prod.splits)

lemma walkCycles_loop_rooms:
  assumes "walkCycles_loop is g trace = Inr (g', trace')" and "\<forall>r \<in> set (m_rooms g). room_ok r"
  shows "\<forall>r \<in> set (m_rooms g'). room_ok r"
  using assms
proof (induction "is" arbitrary: g trace)
  case Nil
  then show ?case by simp
next
  case (Cons i "is")
  from Cons.prems(1) obtain g1 entries where
    s: "walkCycle i g = Inr (g1, entries)"
       "walkCycles_loop is g1 (trace @ entries) = Inr (g', trace')"
    by (auto split: sum.splits)
  from Cons.IH [OF s(2) walkCycle_rooms [OF s(1) Cons.prems(2)]] show ?case .
qed

lemma buildGraph_rooms: "m_rooms (buildGraph segments g) = []"
proof -
  have a: "m_rooms (addSegment s h) = m_rooms h" for s h
  proof -
    obtain a g1 where f1: "findOrCreateNode (seg_a s) h = (a, g1)" by (cases "findOrCreateNode (seg_a s) h")
    obtain b g2 where f2: "findOrCreateNode (seg_b s) g1 = (b, g2)" by (cases "findOrCreateNode (seg_b s) g1")
    show ?thesis
      using findOrCreateNode_edges [OF f1] findOrCreateNode_edges [OF f2]
      by (simp add: addSegment_unfold [OF f1 f2])
  qed
  have "m_rooms (buildNodesAndEdges segments h) = m_rooms h" for h
    by (induction segments arbitrary: h) (simp_all add: a)
  then show ?thesis
    by (simp add: buildGraph_def buildNextRelations_fields sortOutgoingByAngle_fields clear_def)
qed

lemma build_rooms_ok:
  assumes "build segments g = Inr g'"
  shows "\<forall>r \<in> set (m_rooms g'). room_ok r"
proof (cases "segments = []")
  case True
  then show ?thesis using assms by (auto simp: build_def clear_def)
next
  case False
  with assms obtain trace where "walkCycles (buildGraph segments g) = Inr (g', trace)"
    by (auto simp: build_def split: sum.splits)
  then show ?thesis
    using walkCycles_loop_rooms [of _ "buildGraph segments g" "[]" g' trace]
    by (simp add: walkCycles_def buildGraph_rooms)
qed




subsection \<open>Concrete builds\<close>

lemma square10_walk:
  "\<exists>g'. walkCycles (buildGraph square10 RoomGraph_new)
           = Inr (g', [\<lparr>w_start = 0, w_exit = Closed, w_iters = 4, w_emitted = True\<rparr>,
                       \<lparr>w_start = 1, w_exit = Closed, w_iters = 4, w_emitted = False\<rparr>])"
  by (simp add: square10_def eval_defs)

lemma square10_build:
  "\<exists>g'. build square10 RoomGraph_new = Inr g' \<and> length (m_edges g') = 8 \<and>
         getRooms g' =
           [\<lparr>polygon = [\<lparr>vx = 0, vy = 0\<rparr>, \<lparr>vx = 10, vy = 0\<rparr>, \<lparr>vx = 10, vy = 10\<rparr>, \<lparr>vx = 0, vy = 10\<rparr>],
             center = \<lparr>vx = 5, vy = 5\<rparr>, area = 100\<rparr>]"
  by (simp add: square10_def eval_defs)

lemma square10_cw_build:
  "\<exists>g'. build square10_cw RoomGraph_new = Inr g' \<and>
         getRooms g' =
           [\<lparr>polygon = [\<lparr>vx = 10, vy = 0\<rparr>, \<lparr>vx = 10, vy = 10\<rparr>, \<lparr>vx = 0, vy = 10\<rparr>, \<lparr>vx = 0, vy = 0\<rparr>],
             center = \<lparr>vx = 5, vy = 5\<rparr>, area = 100\<rparr>]"
  by (simp add: square10_cw_def eval_defs)

lemma tolerance_rect_build:
  "\<exists>g'. build tolerance_rect RoomGraph_new = Inr g' \<and>
         map polygon (getRooms g') =
           [[\<lparr>vx = 0, vy = 0\<rparr>, \<lparr>vx = 5 / 4096, vy = 0\<rparr>,
             \<lparr>vx = 5 / 4096, vy = 944473296573929 / 2 ^ 60\<rparr>,
             \<lparr>vx = 0, vy = 944473296573929 / 2 ^ 60\<rparr>]] \<and>
         map area (getRooms g') = [rd (1 / 1000000)]"
  by (simp add: tolerance_rect_def eval_defs area_rect_a area_rect_b tol_rd)

lemma tiny_square_build:
  "\<exists>g'. build tiny_square RoomGraph_new = Inr g' \<and>
         map polygon (getRooms g') =
           [[\<lparr>vx = 0, vy = 0\<rparr>, \<lparr>vx = rd (1 / 1000), vy = 0\<rparr>,
             \<lparr>vx = rd (1 / 1000), vy = rd (1 / 1000)\<rparr>, \<lparr>vx = 0, vy = rd (1 / 1000)\<rparr>]] \<and>
         map area (getRooms g') = [rd (1 / 1000000)]"
  by (simp add: tiny_square_def eval_defs area_tiny_a area_tiny_b tol_rd rd_milli)

text \<open>
  The filters test the computed area. For \<open>offset_square\<close> the loop that is returned
  has the computed area \<open>1 / 1024\<close>, and its shoelace area in exact arithmetic is
  \<open>- 1 / 16384\<close>: the loop runs clockwise.
\<close>

lemma offset_square_build:
  "\<exists>g'. build offset_square RoomGraph_new = Inr g' \<and>
         map polygon (getRooms g') =
           [[\<lparr>vx = 268435481 / 128, vy = 33554435 / 16\<rparr>, \<lparr>vx = 33554435 / 16, vy = 33554435 / 16\<rparr>,
             \<lparr>vx = 33554435 / 16, vy = 268435481 / 128\<rparr>,
             \<lparr>vx = 268435481 / 128, vy = 268435481 / 128\<rparr>]] \<and>
         map area (getRooms g') = [1 / 1024]"
  by (simp add: offset_square_def eval_defs area_off_a area_off_b tol_rd)

lemma offset_square_shoelace:
  "shoelace [\<lparr>vx = 268435481 / 128, vy = 33554435 / 16\<rparr>, \<lparr>vx = 33554435 / 16, vy = 33554435 / 16\<rparr>,
             \<lparr>vx = 33554435 / 16, vy = 268435481 / 128\<rparr>,
             \<lparr>vx = 268435481 / 128, vy = 268435481 / 128\<rparr>] = - (1 / 16384)"
  by (simp add: shoelace_def upt_conv_Cons)

subsection \<open>Twins in the built graph\<close>

lemma buildGraph_twins:
  assumes "i < length (m_edges (buildGraph segments g))"
  shows "e_id (m_edges (buildGraph segments g) ! i) = int i"
    and "even i \<Longrightarrow> e_twin (m_edges (buildGraph segments g) ! i) = int i + 1"
    and "odd i \<Longrightarrow> e_twin (m_edges (buildGraph segments g) ! i) = int i - 1"
    and "0 \<le> e_twin (m_edges (buildGraph segments g) ! i)"
    and "nat (e_twin (m_edges (buildGraph segments g) ! i)) < length (m_edges (buildGraph segments g))"
    and "e_twin (m_edges (buildGraph segments g) ! nat (e_twin (m_edges (buildGraph segments g) ! i))) = int i"
    and "even (length (m_edges (buildGraph segments g)))"
proof -
  define g0 where "g0 = sortOutgoingByAngle (buildNodesAndEdges segments (clear g))"
  have ok: "graph_ok g0" unfolding g0_def by (rule graph_ok_sorted)
  have i: "i < length (m_edges g0)"
    using assms by (simp add: buildGraph_def g0_def buildNextRelations_fields)
  have eo: "edge_ok g0 i" using ok i by (simp add: graph_ok_def)
  then have t: "nat (e_twin (m_edges g0 ! i)) < length (m_edges g0)"
    by (simp add: edge_ok_def Let_def)
  have bg: "buildGraph segments g = buildNextRelations g0" by (simp add: buildGraph_def g0_def)
  show "e_id (m_edges (buildGraph segments g) ! i) = int i"
    and "even i \<Longrightarrow> e_twin (m_edges (buildGraph segments g) ! i) = int i + 1"
    and "odd i \<Longrightarrow> e_twin (m_edges (buildGraph segments g) ! i) = int i - 1"
    and "0 \<le> e_twin (m_edges (buildGraph segments g) ! i)"
    and "nat (e_twin (m_edges (buildGraph segments g) ! i)) < length (m_edges (buildGraph segments g))"
    and "e_twin (m_edges (buildGraph segments g) ! nat (e_twin (m_edges (buildGraph segments g) ! i))) = int i"
    using eo i t
    by (simp_all add: bg buildNextRelations_fields relink_other_fields edge_ok_def Let_def)
  show "even (length (m_edges (buildGraph segments g)))"
    using ok by (simp add: bg buildNextRelations_fields graph_ok_def)
qed

lemma build_edges:
  assumes "build segments g = Inr g'"
  shows "map unmark (m_edges g') = map unmark (m_edges (buildGraph segments g))"
proof (cases "segments = []")
  case True
  then show ?thesis
    using assms by (auto simp: build_def buildGraph_def clear_def buildNextRelations_def
        sortOutgoingByAngle_def)
next
  case False
  with assms obtain trace where w: "walkCycles (buildGraph segments g) = Inr (g', trace)"
    by (auto simp: build_def split: sum.splits)
  from walkCycles_buildGraph [of segments g] w show ?thesis by auto
qed

lemma square10_graph_len: "length (m_edges (buildGraph square10 RoomGraph_new)) = 8"
  by (simp add: square10_def eval_defs)

lemma square10_sorted_eval:
  "outgoingEdges (m_nodes square10_sorted ! 0) = [0, 7]"
  "e_to (m_edges square10_sorted ! Suc 0) = 0"
  "e_twin (m_edges square10_sorted ! Suc 0) = 0"
  "length (m_edges square10_sorted) = 8"
  "length (m_nodes square10_sorted) = 4"
  by (simp_all add: square10_sorted_def square10_def eval_defs)

subsection \<open>Counting iterations\<close>

text \<open>
  On any edge array, an iteration of the inner loop marks an unused edge, except the
  last one of a walk that ends on a used edge.
\<close>

lemma walk_iterations:
  "walk N s c E poly k = Inr (E', poly', ex, k') \<Longrightarrow>
   k' + unused_count E' = k + unused_count E + (if ex = HitUsed then 1 else 0)"
proof (induction N s c E poly k rule: walk.induct)
  case (1 nodes startId currentId edges poly k)
  show ?case
  proof (cases "currentId < 0 \<or> int (length edges) \<le> currentId")
    case True
    then show ?thesis using "1.prems" by (subst (asm) walk.simps) simp
  next
    case range: False
    show ?thesis
    proof (cases "e_used (edges ! nat currentId)")
      case True
      then show ?thesis using "1.prems" range by (subst (asm) walk.simps) auto
    next
      case unused: False
      have lt: "nat currentId < length edges" using range by linarith
      note cnt = unused_count_mark [OF lt unused]
      show ?thesis
      proof (cases "e_from (edges ! nat currentId) < 0
                    \<or> int (length nodes) \<le> e_from (edges ! nat currentId)
                    \<or> e_next (edges ! nat currentId) < 0
                    \<or> e_next (edges ! nat currentId) = startId")
        case True
        then show ?thesis
          using "1.prems" range unused cnt
          by (subst (asm) walk.simps) (auto simp: Let_def split: if_splits)
      next
        case False
        then have "walk nodes startId (e_next (edges ! nat currentId))
                     (mark edges (nat currentId))
                     (poly @ [pos (nodes ! nat (e_from (edges ! nat currentId)))]) (Suc k)
                   = Inr (E', poly', ex, k')"
          using "1.prems" range unused by (subst (asm) walk.simps) (simp add: Let_def)
        from "1.IH" [OF range unused refl refl refl _ refl _ _ this] False cnt
        show ?thesis by simp
      qed
    qed
  qed
qed

subsection \<open>Accepted segments and grid keys\<close>

lemma findOrCreateNode_key:
  assumes "findOrCreateNode p g = (a, g')"
  shows "m_nodeIndex g' (gridKey (m_snapSize g) p) = Some a"
  using findOrCreateNode_cases [OF assms] by auto

lemma findOrCreateNode_inj:
  assumes "findOrCreateNode p g = (a, g')" and "registry_ok g" and "registry_inj g"
  shows "registry_inj g'"
proof -
  from findOrCreateNode_cases [OF assms(1)] show ?thesis
  proof
    assume "m_nodeIndex g (gridKey (m_snapSize g) p) = Some a \<and> g' = g"
    then show ?thesis using assms(3) by simp
  next
    assume n: "m_nodeIndex g (gridKey (m_snapSize g) p) = None \<and> a = int (length (m_nodes g)) \<and>
          g' = g\<lparr>m_nodes := m_nodes g @ [\<lparr>n_id = a, pos = p, outgoingEdges = []\<rparr>],
                 m_nodeIndex := (m_nodeIndex g)(gridKey (m_snapSize g) p \<mapsto> a)\<rparr>"
    have fresh: "m_nodeIndex g k \<noteq> Some a" for k
    proof
      assume "m_nodeIndex g k = Some a"
      then have "a < int (length (m_nodes g))" using assms(2) unfolding registry_ok_def by blast
      then show False using n by simp
    qed
    show ?thesis
      unfolding registry_inj_def
    proof (intro allI impI)
      fix k1 k2 v
      assume a: "m_nodeIndex g' k1 = Some v \<and> m_nodeIndex g' k2 = Some v"
      show "k1 = k2"
      proof (cases "k1 = gridKey (m_snapSize g) p")
        case True
        then have "v = a" using a n by simp
        then show ?thesis using a n True fresh [of k2] by (cases "k2 = gridKey (m_snapSize g) p") auto
      next
        case False
        then have k1: "m_nodeIndex g k1 = Some v" using a n by simp
        then have "v \<noteq> a" using fresh [of k1] by auto
        then have "k2 \<noteq> gridKey (m_snapSize g) p" using a n by auto
        then have "m_nodeIndex g k2 = Some v" using a n by simp
        with k1 assms(3) show ?thesis unfolding registry_inj_def by blast
      qed
    qed
  qed
qed

lemma resolve2_distinct:
  assumes "registry_ok g" and "registry_inj g"
  shows "fst (resolve2 p q g) \<noteq> snd (resolve2 p q g)
         \<longleftrightarrow> gridKey (m_snapSize g) p \<noteq> gridKey (m_snapSize g) q"
proof -
  obtain a g1 where f1: "findOrCreateNode p g = (a, g1)" by (cases "findOrCreateNode p g")
  obtain b g2 where f2: "findOrCreateNode q g1 = (b, g2)" by (cases "findOrCreateNode q g1")
  have r: "resolve2 p q g = (a, b)" by (simp add: resolve2_def f1 f2)
  have s1: "m_snapSize g1 = m_snapSize g" using findOrCreateNode_edges [OF f1] by simp
  have ok1: "registry_ok g1" using findOrCreateNode_range(2) [OF f1 assms(1)] .
  have inj1: "registry_inj g1" using findOrCreateNode_inj [OF f1 assms] .
  have inj2: "registry_inj g2" using findOrCreateNode_inj [OF f2 ok1 inj1] .
  have ka: "m_nodeIndex g1 (gridKey (m_snapSize g) p) = Some a" using findOrCreateNode_key [OF f1] .
  have kb: "m_nodeIndex g2 (gridKey (m_snapSize g) q) = Some b"
    using findOrCreateNode_key [OF f2] s1 by simp
  have ka2: "m_nodeIndex g2 (gridKey (m_snapSize g) p) = Some a"
    using findOrCreateNode_cases [OF f2] ka by (auto simp: s1)
  show ?thesis
  proof (cases "gridKey (m_snapSize g) p = gridKey (m_snapSize g) q")
    case True
    then have "a = b" using ka2 kb by simp
    then show ?thesis using True r by simp
  next
    case False
    have "a \<noteq> b"
    proof
      assume "a = b"
      then have "gridKey (m_snapSize g) p = gridKey (m_snapSize g) q"
        using inj2 ka2 kb unfolding registry_inj_def by blast
      then show False using False by simp
    qed
    then show ?thesis using False r by simp
  qed
qed

lemma addSegment_registry:
  assumes "registry_ok g" and "registry_inj g"
  shows "registry_inj (addSegment s g)" and "m_snapSize (addSegment s g) = m_snapSize g"
proof -
  obtain a g1 where f1: "findOrCreateNode (seg_a s) g = (a, g1)" by (cases "findOrCreateNode (seg_a s) g")
  obtain b g2 where f2: "findOrCreateNode (seg_b s) g1 = (b, g2)" by (cases "findOrCreateNode (seg_b s) g1")
  have ok1: "registry_ok g1" using findOrCreateNode_range(2) [OF f1 assms(1)] .
  have inj2: "registry_inj g2"
    using findOrCreateNode_inj [OF f2 ok1 findOrCreateNode_inj [OF f1 assms]] .
  then show "registry_inj (addSegment s g)"
    by (simp add: addSegment_unfold [OF f1 f2] registry_inj_def)
  show "m_snapSize (addSegment s g) = m_snapSize g"
    using findOrCreateNode_edges [OF f1] findOrCreateNode_edges [OF f2]
    by (simp add: addSegment_unfold [OF f1 f2])
qed

lemma accepted_filter:
  assumes "graph_ok g" and "registry_inj g"
  shows "accepted segments g
         = filter (\<lambda>s. gridKey (m_snapSize g) (seg_a s) \<noteq> gridKey (m_snapSize g) (seg_b s)) segments"
  using assms
proof (induction segments arbitrary: g)
  case Nil
  then show ?case by simp
next
  case (Cons s segments)
  have ok: "registry_ok g" using Cons.prems(1) by (simp add: graph_ok_def)
  note r = resolve2_distinct [OF ok Cons.prems(2), of "seg_a s" "seg_b s"]
  note a = addSegment_registry [OF ok Cons.prems(2), of s]
  from Cons.IH [OF addSegment_ok [OF Cons.prems(1)] a(1)] r a(2)
  show ?case by simp
qed

lemma registry_inj_clear: "registry_inj (clear g)"
  by (simp add: registry_inj_def clear_def)

section \<open>The claims\<close>

subsection \<open>C1: walks that do not close\<close>



subsection \<open>C2: the two grid examples\<close>

text \<open>
  C2, as stated, fails: with grid size \<open>1e-3\<close> the point \<open>(0.0005, 0.0005)\<close> has the
  key \<open>(1, 1)\<close>, since \<open>0.0005 / 0.001 + 0.5 = 1\<close> and \<open>floor 1 = 1\<close>, while \<open>(0, 0)\<close>
  has the key \<open>(0, 0)\<close>; the two points get the node ids 0 and 1.
\<close>

theorem C2_counterexample:
  "resolve2 \<lparr>vx = 0, vy = 0\<rparr> \<lparr>vx = 5 / 10000, vy = 5 / 10000\<rparr> RoomGraph_new = (0, 1) \<and>
   \<not> (fst (resolve2 \<lparr>vx = 0, vy = 0\<rparr> \<lparr>vx = 5 / 10000, vy = 5 / 10000\<rparr> RoomGraph_new)
        = snd (resolve2 \<lparr>vx = 0, vy = 0\<rparr> \<lparr>vx = 5 / 10000, vy = 5 / 10000\<rparr> RoomGraph_new) \<and>
      fst (resolve2 \<lparr>vx = 0, vy = 0\<rparr> \<lparr>vx = 1 / 100, vy = 1 / 100\<rparr> RoomGraph_new)
        \<noteq> snd (resolve2 \<lparr>vx = 0, vy = 0\<rparr> \<lparr>vx = 1 / 100, vy = 1 / 100\<rparr> RoomGraph_new))"
  by (simp add: resolve2_def findOrCreateNode_def gridKey_def RoomGraph_new_def Let_def)

text \<open>
  C2 (amended): with the default grid size \<open>1e-3\<close>, the points \<open>(0, 0)\<close> and
  \<open>(0.0005, 0.0005)\<close> resolve to distinct node ids (the second lies on the cell
  boundary and rounds up); a point strictly inside the half cell, such as
  \<open>(0.0004, 0.0004)\<close>, resolves to the node of \<open>(0, 0)\<close>; and \<open>(0, 0)\<close> and
  \<open>(0.01, 0.01)\<close> resolve to distinct node ids.
\<close>

theorem C2_grid_examples:
  "fst (resolve2 \<lparr>vx = 0, vy = 0\<rparr> \<lparr>vx = 5 / 10000, vy = 5 / 10000\<rparr> RoomGraph_new)
     \<noteq> snd (resolve2 \<lparr>vx = 0, vy = 0\<rparr> \<lparr>vx = 5 / 10000, vy = 5 / 10000\<rparr> RoomGraph_new)
   \<and> fst (resolve2 \<lparr>vx = 0, vy = 0\<rparr> \<lparr>vx = 4 / 10000, vy = 4 / 10000\<rparr> RoomGraph_new)
     = snd (resolve2 \<lparr>vx = 0, vy = 0\<rparr> \<lparr>vx = 4 / 10000, vy = 4 / 10000\<rparr> RoomGraph_new)
   \<and> fst (resolve2 \<lparr>vx = 0, vy = 0\<rparr> \<lparr>vx = 1 / 100, vy = 1 / 100\<rparr> RoomGraph_new)
     \<noteq> snd (resolve2 \<lparr>vx = 0, vy = 0\<rparr> \<lparr>vx = 1 / 100, vy = 1 / 100\<rparr> RoomGraph_new)"
  by (simp add: resolve2_def findOrCreateNode_def gridKey_def RoomGraph_new_def Let_def)

subsection \<open>C3: the next edge is the predecessor of the twin\<close>

text \<open>
  C3: let \<open>e\<close> be a half-edge whose target \<open>B\<close> is a node, and \<open>out\<close> the outgoing
  list of \<open>B\<close>, of length \<open>n\<close>. If the twin of \<open>e\<close> occurs in \<open>out\<close> at position \<open>p\<close>
  (any position when \<open>out\<close> has no duplicates, as in every built graph; otherwise
  the first one, which the search loop finds), then \<^verbatim>\<open>buildNextRelations\<close> sets
  \<open>e.next\<close> to the entry of \<open>out\<close> at position \<open>(p - 1) mod n\<close>. If the twin does not
  occur in \<open>out\<close> (in particular if \<open>out\<close> is empty), \<open>e.next\<close> is left as it was,
  which is unset for an edge that \<^verbatim>\<open>buildNodesAndEdges\<close> created.
\<close>

theorem C3_next_is_predecessor_of_twin:
  assumes "i < length (m_edges g)"
    and "e = m_edges g ! i" and "e' = m_edges (buildNextRelations g) ! i"
    and "0 \<le> e_to e" and "e_to e < int (length (m_nodes g))"
    and "out = outgoingEdges (m_nodes g ! nat (e_to e))"
  shows "(\<forall>p < length out.
            out ! p = e_twin e \<and> (distinct out \<or> (\<forall>q < p. out ! q \<noteq> e_twin e))
            \<longrightarrow> e_next e' = out ! nat ((int p - 1) mod int (length out)))
         \<and> (e_twin e \<notin> set out \<longrightarrow> e_next e' = e_next e)"
proof (intro conjI allI impI)
  fix p assume p: "p < length out"
    "out ! p = e_twin e \<and> (distinct out \<or> (\<forall>q < p. out ! q \<noteq> e_twin e))"
  have first: "\<forall>q < p. out ! q \<noteq> e_twin e"
  proof (intro allI impI)
    fix q assume q: "q < p"
    show "out ! q \<noteq> e_twin e"
    proof (cases "distinct out")
      case True
      then have "out ! q \<noteq> out ! p" using q p(1) by (simp add: nth_eq_iff_index_eq)
      then show ?thesis using p(2) by simp
    next
      case False
      then show ?thesis using p(2) q by blast
    qed
  qed
  have "e' = relink (m_nodes g) e" using assms(1-3) by (simp add: buildNextRelations_fields)
  also have "\<dots> = e\<lparr>e_next := out ! ((p + length out - 1) mod length out)\<rparr>"
    using relink_found [OF assms(4,5), of p] p first by (simp add: assms(6))
  finally have "e_next e' = out ! ((p + length out - 1) mod length out)" by simp
  moreover have "nat ((int p - 1) mod int (length out)) = (p + length out - 1) mod length out"
    using nextPos_nat [OF p(1)]
    by (metis add.commute diff_add_eq mod_add_self1)
  ultimately show "e_next e' = out ! nat ((int p - 1) mod int (length out))" by simp
next
  assume "e_twin e \<notin> set out"
  then have "relink (m_nodes g) e = e" using relink_not_found [of e "m_nodes g"] by (simp add: assms(6))
  then show "e_next e' = e_next e" using assms(1-3) by (simp add: buildNextRelations_fields)
qed

theorem C3_next_is_predecessor_of_twin_witness:
  "e_next (m_edges (buildNextRelations square10_sorted) ! 1) = 7"
proof -
  have h1: "1 < length (m_edges square10_sorted)" by (simp add: square10_sorted_eval)
  have h4: "0 \<le> e_to (m_edges square10_sorted ! 1)" by (simp add: square10_sorted_eval)
  have h5: "e_to (m_edges square10_sorted ! 1) < int (length (m_nodes square10_sorted))"
    by (simp add: square10_sorted_eval)
  have h6: "[0, 7] = outgoingEdges (m_nodes square10_sorted ! nat (e_to (m_edges square10_sorted ! 1)))"
    by (simp add: square10_sorted_eval)
  from C3_next_is_predecessor_of_twin [OF h1 refl refl h4 h5 h6]
  have "\<forall>p < length [0, 7 :: int].
          [0, 7] ! p = e_twin (m_edges square10_sorted ! 1) \<and>
          (distinct [0, 7 :: int] \<or> (\<forall>q < p. [0, 7] ! q \<noteq> e_twin (m_edges square10_sorted ! 1)))
          \<longrightarrow> e_next (m_edges (buildNextRelations square10_sorted) ! 1)
                = [0, 7] ! nat ((int p - 1) mod int (length [0, 7 :: int]))"
    by (rule conjunct1)
  then have "[0, 7] ! 0 = e_twin (m_edges square10_sorted ! 1) \<and>
          (distinct [0, 7 :: int] \<or> (\<forall>q < (0::nat). [0, 7] ! q \<noteq> e_twin (m_edges square10_sorted ! 1)))
          \<longrightarrow> e_next (m_edges (buildNextRelations square10_sorted) ! 1)
                = [0, 7] ! nat ((int 0 - 1) mod int (length [0, 7 :: int]))"
    by (elim allE [of _ 0]) simp
  then show ?thesis by (simp add: square10_sorted_eval)
qed

subsection \<open>C4: every Room is counter-clockwise and above the tolerance\<close>

text \<open>
  C4, as stated, fails at the tolerance: the filter discards a loop when
  \<^verbatim>\<open>fabs(signedArea) < 1e-6\<close>, so a loop whose area equals the tolerance is kept. The
  rectangle \<open>tolerance_rect\<close> is returned as a Room. Its area is the double
  \<open>1e-6\<close>, which is \<open>rd (1 / 1000000)\<close>, both as the code computes it and in exact
  arithmetic: it is not greater than the tolerance, and it is less than \<open>10^-6\<close>. The
  square whose side is the double \<open>0.001\<close> is returned too: its computed area is the
  tolerance.
\<close>

theorem C4_counterexample:
  "(\<exists>g'. build tolerance_rect RoomGraph_new = Inr g' \<and>
      (\<exists>r \<in> set (getRooms g').
         polygon r = [\<lparr>vx = 0, vy = 0\<rparr>, \<lparr>vx = 5 / 4096, vy = 0\<rparr>,
                      \<lparr>vx = 5 / 4096, vy = 944473296573929 / 2 ^ 60\<rparr>,
                      \<lparr>vx = 0, vy = 944473296573929 / 2 ^ 60\<rparr>] \<and>
         computeSignedArea (polygon r) = rd (1 / 1000000) \<and>
         shoelace (polygon r) = rd (1 / 1000000) \<and>
         \<not> rd (1 / 1000000) < computeSignedArea (polygon r) \<and>
         \<not> 1 / 1000000 < shoelace (polygon r))) \<and>
   (\<exists>g'. build tiny_square RoomGraph_new = Inr g' \<and>
      (\<exists>r \<in> set (getRooms g').
         polygon r = [\<lparr>vx = 0, vy = 0\<rparr>, \<lparr>vx = rd (1 / 1000), vy = 0\<rparr>,
                      \<lparr>vx = rd (1 / 1000), vy = rd (1 / 1000)\<rparr>, \<lparr>vx = 0, vy = rd (1 / 1000)\<rparr>] \<and>
         \<not> rd (1 / 1000000) < computeSignedArea (polygon r)))"
proof -
  from tolerance_rect_build obtain g1 where
    g1: "build tolerance_rect RoomGraph_new = Inr g1"
        "map polygon (getRooms g1) =
           [[\<lparr>vx = 0, vy = 0\<rparr>, \<lparr>vx = 5 / 4096, vy = 0\<rparr>,
             \<lparr>vx = 5 / 4096, vy = 944473296573929 / 2 ^ 60\<rparr>,
             \<lparr>vx = 0, vy = 944473296573929 / 2 ^ 60\<rparr>]]" by (elim exE conjE)
  from g1(2) obtain r1 where r1: "getRooms g1 = [r1]" by auto
  from tiny_square_build obtain g2 where
    g2: "build tiny_square RoomGraph_new = Inr g2"
        "map polygon (getRooms g2) =
           [[\<lparr>vx = 0, vy = 0\<rparr>, \<lparr>vx = rd (1 / 1000), vy = 0\<rparr>,
             \<lparr>vx = rd (1 / 1000), vy = rd (1 / 1000)\<rparr>, \<lparr>vx = 0, vy = rd (1 / 1000)\<rparr>]]" by (elim exE conjE)
  from g2(2) obtain r2 where r2: "getRooms g2 = [r2]" by auto
  have a: "\<exists>r \<in> set (getRooms g1).
         polygon r = [\<lparr>vx = 0, vy = 0\<rparr>, \<lparr>vx = 5 / 4096, vy = 0\<rparr>,
                      \<lparr>vx = 5 / 4096, vy = 944473296573929 / 2 ^ 60\<rparr>,
                      \<lparr>vx = 0, vy = 944473296573929 / 2 ^ 60\<rparr>] \<and>
         computeSignedArea (polygon r) = rd (1 / 1000000) \<and>
         shoelace (polygon r) = rd (1 / 1000000) \<and>
         \<not> rd (1 / 1000000) < computeSignedArea (polygon r) \<and>
         \<not> 1 / 1000000 < shoelace (polygon r)"
    using g1(2) by (simp add: r1 area_rect_a tol_rd shoelace_def upt_conv_Cons)
  have b: "\<exists>r \<in> set (getRooms g2).
         polygon r = [\<lparr>vx = 0, vy = 0\<rparr>, \<lparr>vx = rd (1 / 1000), vy = 0\<rparr>,
                      \<lparr>vx = rd (1 / 1000), vy = rd (1 / 1000)\<rparr>, \<lparr>vx = 0, vy = rd (1 / 1000)\<rparr>] \<and>
         \<not> rd (1 / 1000000) < computeSignedArea (polygon r)"
    using g2(2) by (simp add: r2 area_tiny_a tol_rd rd_milli)
  from g1(1) a g2(1) b show ?thesis by blast
qed

text \<open>
  C4 (amended): every Room in the list returned after build has a polygon of at
  least 3 vertices whose signed area, as \<^verbatim>\<open>computeSignedArea\<close> computes it in double
  arithmetic, is at least the tolerance \<open>1e-6\<close> (greater than or equal, not strictly
  greater), hence positive; its \<open>area\<close> field is that computed area. No loop whose
  computed area is below the tolerance or not positive is returned. The statement
  speaks of the computed area only; what the rounding of the sum does to the
  orientation of a loop is not part of it (see \<open>offset_square_build\<close>).
\<close>

theorem C4_rooms_computed_area:
  assumes "build segments g = Inr g'" and "r \<in> set (getRooms g')"
  shows "3 \<le> length (polygon r) \<and> rd (1 / 1000000) \<le> computeSignedArea (polygon r) \<and>
         0 < computeSignedArea (polygon r) \<and> area r = computeSignedArea (polygon r)"
proof -
  have "room_ok r" using build_rooms_ok [OF assms(1)] assms(2) by (simp add: getRooms_def)
  then show ?thesis using tol_pos(3) by (simp add: room_ok_def)
qed

theorem C4_rooms_computed_area_witness:
  "\<exists>g' r. build square10 RoomGraph_new = Inr g' \<and> r \<in> set (getRooms g') \<and>
     length (polygon r) = 4 \<and> 3 \<le> length (polygon r) \<and>
     rd (1 / 1000000) \<le> computeSignedArea (polygon r) \<and> area r = computeSignedArea (polygon r)"
proof -
  from square10_build obtain g' where
    g: "build square10 RoomGraph_new = Inr g'"
       "getRooms g' =
           [\<lparr>polygon = [\<lparr>vx = 0, vy = 0\<rparr>, \<lparr>vx = 10, vy = 0\<rparr>, \<lparr>vx = 10, vy = 10\<rparr>, \<lparr>vx = 0, vy = 10\<rparr>],
             center = \<lparr>vx = 5, vy = 5\<rparr>, area = 100\<rparr>]" by blast
  define r where "r = hd (getRooms g')"
  have r: "r \<in> set (getRooms g')" "length (polygon r) = 4" by (simp_all add: r_def g(2))
  from C4_rooms_computed_area [OF g(1) r(1)] r g(1) show ?thesis by blast
qed

subsection \<open>C5: the 10 by 10 square\<close>

text \<open>
  C5: building from the 4 segments of the square with corners \<open>(0, 0)\<close>, \<open>(10, 0)\<close>,
  \<open>(10, 10)\<close>, \<open>(0, 10)\<close> yields exactly one Room, with area 100, centroid \<open>(5, 5)\<close>
  and a polygon of 4 vertices; shown for the segments listed counter-clockwise,
  and for the segments listed in another order with other directions.
\<close>

theorem C5_square:
  "(\<exists>g'. build square10 RoomGraph_new = Inr g' \<and>
          getRooms g' =
            [\<lparr>polygon = [\<lparr>vx = 0, vy = 0\<rparr>, \<lparr>vx = 10, vy = 0\<rparr>, \<lparr>vx = 10, vy = 10\<rparr>, \<lparr>vx = 0, vy = 10\<rparr>],
              center = \<lparr>vx = 5, vy = 5\<rparr>, area = 100\<rparr>]) \<and>
   (\<exists>g'. build square10_cw RoomGraph_new = Inr g' \<and>
          getRooms g' =
            [\<lparr>polygon = [\<lparr>vx = 10, vy = 0\<rparr>, \<lparr>vx = 10, vy = 10\<rparr>, \<lparr>vx = 0, vy = 10\<rparr>, \<lparr>vx = 0, vy = 0\<rparr>],
              center = \<lparr>vx = 5, vy = 5\<rparr>, area = 100\<rparr>])"
  using square10_build square10_cw_build by blast

subsection \<open>C6: two half-edges per accepted segment\<close>

text \<open>
  C6: for every segment list, the half-edge builder, started on the cleared graph,
  creates exactly twice as many half-edges as there are accepted segments, and
  exactly as many entries in the outgoing lists; a segment whose endpoints resolve
  to the same node adds neither. The later steps of build keep the number of
  half-edges. The accepted segments are those whose two endpoints have different
  grid keys.
\<close>

theorem C6_half_edge_count:
  "length (m_edges (buildNodesAndEdges segments (clear g)))
     = 2 * length (accepted segments (clear g)) \<and>
   outgoing_total (buildNodesAndEdges segments (clear g))
     = 2 * length (accepted segments (clear g)) \<and>
   length (m_edges (buildGraph segments g)) = 2 * length (accepted segments (clear g)) \<and>
   accepted segments (clear g)
     = filter (\<lambda>s. gridKey (m_snapSize g) (seg_a s) \<noteq> gridKey (m_snapSize g) (seg_b s)) segments"
  using buildNodesAndEdges_counts [OF graph_ok_clear, of segments g]
    accepted_filter [OF graph_ok_clear registry_inj_clear, of segments g]
  by (simp add: clear_def outgoing_total_def buildGraph_def buildNextRelations_fields
      sortOutgoingByAngle_fields)

subsection \<open>C7: twins\<close>

text \<open>
  C7: in the graph that build leaves, every half-edge \<open>e\<close> carries its index as id,
  its twin is a half-edge of the array, and the twin of the twin of \<open>e\<close> is \<open>e\<close>.
  The two half-edges of a segment have consecutive ids: the edge at an even index
  \<open>i\<close> has the twin \<open>i + 1\<close>, the edge at an odd index \<open>i\<close> has the twin \<open>i - 1\<close>, and
  the array has even length.
\<close>

theorem C7_twin_involution:
  assumes "build segments g = Inr g'" and "i < length (m_edges g')"
  shows "e_id (m_edges g' ! i) = int i \<and>
         0 \<le> e_twin (m_edges g' ! i) \<and> nat (e_twin (m_edges g' ! i)) < length (m_edges g') \<and>
         e_twin (m_edges g' ! nat (e_twin (m_edges g' ! i))) = e_id (m_edges g' ! i) \<and>
         e_twin (m_edges g' ! i) = (if even i then e_id (m_edges g' ! i) + 1 else e_id (m_edges g' ! i) - 1) \<and>
         even (length (m_edges g'))"
proof -
  define E where "E = m_edges (buildGraph segments g)"
  note u = unmark_fields [OF build_edges [OF assms(1)], folded E_def]
  have i: "i < length E" using assms(2) u(1) by simp
  note b = buildGraph_twins [of i segments g, folded E_def, OF i]
  have t: "nat (e_twin (E ! i)) < length E" using b(5) .
  have "e_id (m_edges g' ! i) = int i" using u(2) [OF i] b(1) by simp
  moreover have tw: "e_twin (m_edges g' ! i) = e_twin (E ! i)" using u(5) [OF i] .
  moreover have "e_twin (m_edges g' ! nat (e_twin (E ! i))) = int i" using u(5) [OF t] b(6) by simp
  moreover have "e_twin (E ! i) = (if even i then int i + 1 else int i - 1)" using b(2,3) by simp
  ultimately show ?thesis using b(4,5,7) u(1) by simp
qed

theorem C7_twin_involution_witness:
  "\<exists>g'. build square10 RoomGraph_new = Inr g' \<and> 0 < length (m_edges g') \<and>
     e_twin (m_edges g' ! nat (e_twin (m_edges g' ! 0))) = e_id (m_edges g' ! 0) \<and>
     e_twin (m_edges g' ! 0) = 1"
proof -
  from square10_build obtain g' where
    g: "build square10 RoomGraph_new = Inr g'" "length (m_edges g') = 8" by blast
  then have pos: "0 < length (m_edges g')" by simp
  have "e_twin (m_edges g' ! nat (e_twin (m_edges g' ! 0))) = e_id (m_edges g' ! 0) \<and>
        e_twin (m_edges g' ! 0) = 1"
    using C7_twin_involution [OF g(1) pos] by auto
  with g(1) pos show ?thesis by blast
qed

subsection \<open>C8: the next field\<close>

text \<open>
  C8: after \<^verbatim>\<open>buildNextRelations\<close> (step 3 of build), the \<^verbatim>\<open>next\<close> field of every
  half-edge is unset (\<open>-1\<close>) or the id of a half-edge of the array, and it is never
  the id of the edge itself.
\<close>

theorem C8_next_valid_or_unset:
  assumes "i < length (m_edges (buildGraph segments g))"
  shows "(e_next (m_edges (buildGraph segments g) ! i) = - 1 \<or>
          (0 \<le> e_next (m_edges (buildGraph segments g) ! i) \<and>
           e_next (m_edges (buildGraph segments g) ! i) < int (length (m_edges (buildGraph segments g)))))
         \<and> e_next (m_edges (buildGraph segments g) ! i) \<noteq> e_id (m_edges (buildGraph segments g) ! i)"
  using next_ok_buildGraph [of segments g] assms by (simp add: next_ok_def edges_wf_def)

theorem C8_next_valid_or_unset_witness:
  "(0::nat) < length (m_edges (buildGraph square10 RoomGraph_new)) \<and>
   e_next (m_edges (buildGraph square10 RoomGraph_new) ! 0)
     \<noteq> e_id (m_edges (buildGraph square10 RoomGraph_new) ! 0)"
proof -
  have "0 < length (m_edges (buildGraph square10 RoomGraph_new))"
    by (simp add: square10_graph_len)
  from C8_next_valid_or_unset [OF this] this show ?thesis by simp
qed

subsection \<open>C9: building twice\<close>

text \<open>
  C9: build on any graph returns; building again from the same segments on the
  graph it returned gives the same room list (the same rooms in the same order),
  and indeed the same graph, since build clears nodes, edges, rooms and the node
  index first and the grid size does not change.
\<close>

theorem C9_build_twice:
  "\<exists>g1 g2. build segments g = Inr g1 \<and> build segments g1 = Inr g2 \<and>
           getRooms g2 = getRooms g1 \<and> g2 = g1"
proof -
  from build_total [of segments g] obtain g1 where
    g1: "build segments g = Inr g1" "m_snapSize g1 = m_snapSize g" by blast
  have "clear g1 = clear g" using g1(2) by (rule clear_cong)
  then have "build segments g1 = build segments g" by (simp add: build_def buildGraph_def)
  then show ?thesis using g1(1) by simp
qed

subsection \<open>C10: the cycle walker terminates\<close>

text \<open>
  C10: on every built graph the cycle walker returns, without reading outside the
  edge array. Every iteration of the inner loop marks a half-edge that was not
  marked: the iterations of all walks together and the half-edges left unmarked
  add up to the number of half-edges, so that the number of iterations is at most
  the number of half-edges. On any edge array, a walk that returns has made as
  many iterations as it has marked half-edges, and one more if it ended on a used
  half-edge.
\<close>

theorem C10_walk_terminates:
  "(\<exists>g' trace.
      walkCycles (buildGraph segments g) = Inr (g', trace) \<and>
      sum_list (map w_iters trace) + unused_count (m_edges g')
        = length (m_edges (buildGraph segments g)) \<and>
      sum_list (map w_iters trace) \<le> length (m_edges (buildGraph segments g))) \<and>
   (case walk N s c E poly k of
      Inl err \<Rightarrow> True
    | Inr (E', poly', ex, k') \<Rightarrow>
        k' + unused_count E' = k + unused_count E + (if ex = HitUsed then 1 else 0))"
proof
  from walkCycles_buildGraph [of segments g] obtain g' trace where
    "walkCycles (buildGraph segments g) = Inr (g', trace)"
    "sum_list (map w_iters trace) + unused_count (m_edges g')
       = length (m_edges (buildGraph segments g))" by blast
  then show "\<exists>g' trace.
      walkCycles (buildGraph segments g) = Inr (g', trace) \<and>
      sum_list (map w_iters trace) + unused_count (m_edges g')
        = length (m_edges (buildGraph segments g)) \<and>
      sum_list (map w_iters trace) \<le> length (m_edges (buildGraph segments g))"
    by (intro exI [of _ g'] exI [of _ trace]) simp
next
  show "case walk N s c E poly k of
      Inl err \<Rightarrow> True
    | Inr (E', poly', ex, k') \<Rightarrow>
        k' + unused_count E' = k + unused_count E + (if ex = HitUsed then 1 else 0)"
    using walk_iterations [of N s c E poly k]
    by (auto split: sum.splits simp del: One_nat_def)
qed

theorem C10_walk_terminates_witness:
  "\<exists>g' trace.
     walkCycles (buildGraph square10 RoomGraph_new) = Inr (g', trace) \<and>
     sum_list (map w_iters trace) = 8 \<and> unused_count (m_edges g') = 0"
proof -
  from C10_walk_terminates [of square10 RoomGraph_new] obtain g' trace where
    c: "walkCycles (buildGraph square10 RoomGraph_new) = Inr (g', trace)"
       "sum_list (map w_iters trace) + unused_count (m_edges g')
          = length (m_edges (buildGraph square10 RoomGraph_new))" by blast
  from square10_walk c(1) have "sum_list (map w_iters trace) = 8" by auto
  with c show ?thesis by (intro exI [of _ g'] exI [of _ trace]) (simp add: square10_graph_len)
qed

end
